theory Spec2Isabelle
  imports Main "HOL-Library.Char_ord" "HOL-Library.List_Lexorder" "HOL-Library.Word"
    "HOL-Library.Multiset"
begin

section \<open>Go strings and the library functions the repository calls\<close>

text \<open>
  A Go string is a sequence of bytes; \<open>len\<close>, indexing and slicing count bytes. The
  model uses \<^typ>\<open>string\<close> (a list of 8-bit characters). The two platform choices made
  are those of the released binaries: \<open>int\<close> is 64 bits wide and the path separator
  is the slash.
\<close>

definition byte :: "char \<Rightarrow> int" where
  "byte c = of_char c"

text \<open>\<open>unicode.IsDigit(rune(s[i]))\<close> on a single byte: below U+0100 only 0..9 are digits.\<close>

definition isDigit :: "char \<Rightarrow> bool" where
  "isDigit c = (48 \<le> byte c \<and> byte c \<le> 57)"

definition HasPrefix :: "string \<Rightarrow> string \<Rightarrow> bool" where
  "HasPrefix s p = (length p \<le> length s \<and> take (length p) s = p)"

definition HasSuffix :: "string \<Rightarrow> string \<Rightarrow> bool" where
  "HasSuffix s p = (length p \<le> length s \<and> drop (length s - length p) s = p)"

subsection \<open>strconv\<close>

datatype numError = ErrSyntax | ErrRange

definition maxUint64 :: int where
  "maxUint64 = 2 ^ 64 - 1"

text \<open>
  The digit loop of \<open>strconv.ParseUint(s, 10, 64)\<close>. A byte that is no decimal digit is
  a syntax error; the value leaving 64 bits is a range error, reported at once (the
  bytes after it are not looked at) together with the largest value.
\<close>

fun parseUintLoop :: "int \<Rightarrow> string \<Rightarrow> int \<times> numError option" where
  "parseUintLoop n [] = (n, None)"
| "parseUintLoop n (c # cs) =
     (if \<not> isDigit c then (0, Some ErrSyntax)
      else if n \<ge> maxUint64 div 10 + 1 then (maxUint64, Some ErrRange)
      else if n * 10 + (byte c - 48) > maxUint64 then (maxUint64, Some ErrRange)
      else parseUintLoop (n * 10 + (byte c - 48)) cs)"

definition ParseUint :: "string \<Rightarrow> int \<times> numError option" where
  "ParseUint s = (if s = [] then (0, Some ErrSyntax) else parseUintLoop 0 s)"

text \<open>
  \<open>strconv.ParseInt(s, 10, 64)\<close>: an optional sign, then \<open>ParseUint\<close>. On a range error
  the result is the nearest bound, and that is the value a caller who drops the error
  goes on with.
\<close>

definition ParseInt :: "string \<Rightarrow> int \<times> numError option" where
  "ParseInt s =
     (if s = [] then (0, Some ErrSyntax)
      else
        let neg = (hd s = CHR ''-'');
            s1 = (if hd s = CHR ''+'' \<or> hd s = CHR ''-'' then tl s else s);
            un = fst (ParseUint s1);
            err = snd (ParseUint s1)
        in if err = Some ErrSyntax then (0, err)
           else if \<not> neg \<and> un \<ge> 2 ^ 63 then (2 ^ 63 - 1, Some ErrRange)
           else if neg \<and> un > 2 ^ 63 then (- (2 ^ 63), Some ErrRange)
           else (if neg then - un else un, None))"

text \<open>
  \<open>strconv.Atoi\<close> with a 64-bit \<open>int\<close>: its fast path for fewer than 19 bytes computes
  what \<open>ParseInt(s, 10, 0)\<close> computes, and longer inputs are handed to \<open>ParseInt\<close>.
\<close>

definition Atoi :: "string \<Rightarrow> int \<times> numError option" where
  "Atoi s = ParseInt s"

section \<open>internal/deb: version strings\<close>

subsection \<open>ParseVersion\<close>

text \<open>
  The tail \<open>([^-]+)(?:-(.+))?$\<close> of \<open>versionRegex\<close>. The class \<open>[^-]\<close> takes every
  byte but the hyphen, so the greedy \<open>[^-]+\<close> ends at the first hyphen (a shorter
  choice is followed by a byte that is neither a hyphen nor the end). The dot takes
  every byte but the line feed, and \<open>$\<close> is the end of the text.
\<close>

definition matchUpstreamRevision :: "string \<Rightarrow> (string \<times> string) option" where
  "matchUpstreamRevision s =
     (let u = takeWhile (\<lambda>c. c \<noteq> CHR ''-'') s;
          r = dropWhile (\<lambda>c. c \<noteq> CHR ''-'') s
      in if u = [] then None
         else if r = [] then Some (u, [])
         else if tl r \<noteq> [] \<and> CHR 0x0A \<notin> set (tl r) then Some (u, tl r)
         else None)"

text \<open>
  \<open>versionRegex = ^(?:(\d+):)?([^-]+)(?:-(.+))?$\<close>, returning the three submatches of
  \<open>FindStringSubmatch\<close> (an unmatched group is the empty string). The optional epoch
  group is tried first; when the rest does not match after it, the match is tried again
  without the group.
\<close>

definition versionRegex :: "string \<Rightarrow> (string \<times> string \<times> string) option" where
  "versionRegex s =
     (let d = takeWhile isDigit s;
          t = dropWhile isDigit s;
          withEpoch =
            (if d \<noteq> [] \<and> t \<noteq> [] \<and> hd t = CHR '':''
             then map_option (\<lambda>(u, r). (d, u, r)) (matchUpstreamRevision (tl t))
             else None)
      in case withEpoch of
           Some m \<Rightarrow> Some m
         | None \<Rightarrow> map_option (\<lambda>(u, r). ([], u, r)) (matchUpstreamRevision s))"

definition ParseVersion :: "string \<Rightarrow> int \<times> string \<times> string" where
  "ParseVersion version =
     (case versionRegex version of
        None \<Rightarrow> (0, version, [])
      | Some (e, u, r) \<Rightarrow> ((if e \<noteq> [] then fst (Atoi e) else 0), u, r))"

subsection \<open>Compare\<close>

definition extractNonDigits :: "string \<Rightarrow> string \<times> string" where
  "extractNonDigits s = (takeWhile (\<lambda>c. \<not> isDigit c) s, dropWhile (\<lambda>c. \<not> isDigit c) s)"

definition extractDigits :: "string \<Rightarrow> string \<times> string" where
  "extractDigits s = (takeWhile isDigit s, dropWhile isDigit s)"

definition charOrder :: "char \<Rightarrow> int" where
  "charOrder c =
     (if c = CHR ''~'' then - 1
      else if CHR ''A'' \<le> c \<and> c \<le> CHR ''Z'' then byte c
      else if CHR ''a'' \<le> c \<and> c \<le> CHR ''z'' then byte c
      else byte c + 256)"

text \<open>The loop of \<open>compareNonDigits\<close>, from index \<open>i\<close> on; a missing byte counts 0.\<close>

function compareNonDigitsFrom :: "nat \<Rightarrow> string \<Rightarrow> string \<Rightarrow> int" where
  "compareNonDigitsFrom i a b =
     (if i < length a \<or> i < length b then
        (let ca = (if i < length a then charOrder (a ! i) else 0);
             cb = (if i < length b then charOrder (b ! i) else 0)
         in if ca \<noteq> cb then (if ca < cb then - 1 else 1)
            else compareNonDigitsFrom (i + 1) a b)
      else 0)"
  by pat_completeness auto
termination
  by (relation "measure (\<lambda>(i, a, b). max (length a) (length b) - i)") auto

definition compareNonDigits :: "string \<Rightarrow> string \<Rightarrow> int" where
  "compareNonDigits a b = compareNonDigitsFrom 0 a b"

text \<open>\<open>strings.TrimLeft(a, "0")\<close>, then \<open>ParseInt\<close> with the error dropped.\<close>

definition digitsValue :: "string \<Rightarrow> int" where
  "digitsValue a =
     (let a1 = dropWhile (\<lambda>c. c = CHR ''0'') a;
          a2 = (if a1 = [] then ''0'' else a1)
      in fst (ParseInt a2))"

definition compareDigits :: "string \<Rightarrow> string \<Rightarrow> int" where
  "compareDigits a b =
     (let numA = digitsValue a; numB = digitsValue b
      in if numA < numB then - 1 else if numA > numB then 1 else 0)"

function compareVersionPart :: "string \<Rightarrow> string \<Rightarrow> int" where
  "compareVersionPart a b =
     (if length a > 0 \<or> length b > 0 then
        (let cmp = compareNonDigits (fst (extractNonDigits a)) (fst (extractNonDigits b))
         in if cmp \<noteq> 0 then cmp
            else
              (let a1 = snd (extractNonDigits a);
                   b1 = snd (extractNonDigits b);
                   cmp2 = compareDigits (fst (extractDigits a1)) (fst (extractDigits b1))
               in if cmp2 \<noteq> 0 then cmp2
                  else compareVersionPart (snd (extractDigits a1)) (snd (extractDigits b1))))
      else 0)"
  by pat_completeness auto
termination
proof (relation "measure (\<lambda>(a, b). length a + length b)", goal_cases)
  case 1
  show ?case by simp
next
  case (2 a b)
  have le: "length (dropWhile isDigit (dropWhile (\<lambda>c. \<not> isDigit c) s)) \<le> length s" for s
    by (meson dual_order.trans length_dropWhile_le)
  have lt: "length (dropWhile isDigit (dropWhile (\<lambda>c. \<not> isDigit c) s)) < length s"
    if "s \<noteq> []" for s
  proof (cases s)
    case Nil
    with that show ?thesis by simp
  next
    case (Cons c cs)
    show ?thesis
    proof (cases "isDigit c")
      case True
      have "length (dropWhile isDigit cs) \<le> length cs"
        by (rule length_dropWhile_le)
      with True Cons show ?thesis by simp
    next
      case False
      have "length (dropWhile isDigit (dropWhile (\<lambda>c. \<not> isDigit c) cs)) \<le> length cs"
        by (rule le)
      with False Cons show ?thesis by simp
    qed
  qed
  from 2 show ?case
    using le [of a] le [of b] lt [of a] lt [of b]
    by (auto simp: extractDigits_def extractNonDigits_def)
qed

definition Compare :: "string \<Rightarrow> string \<Rightarrow> int" where
  "Compare a b =
     (let epochA = fst (ParseVersion a);
          upstreamA = fst (snd (ParseVersion a));
          revisionA = snd (snd (ParseVersion a));
          epochB = fst (ParseVersion b);
          upstreamB = fst (snd (ParseVersion b));
          revisionB = snd (snd (ParseVersion b))
      in if epochA \<noteq> epochB then (if epochA < epochB then - 1 else 1)
         else
           (let cmp = compareVersionPart upstreamA upstreamB
            in if cmp \<noteq> 0 then cmp else compareVersionPart revisionA revisionB))"

subsection \<open>Three-way comparators\<close>

text \<open>
  A three-way comparison in the style of \<open>Compare\<close>: zero on equal arguments, the sign
  flips when the arguments are swapped, and "not greater" is transitive.
\<close>

definition isComparator :: "('a \<Rightarrow> 'a \<Rightarrow> int) \<Rightarrow> bool" where
  "isComparator c =
     ((\<forall>x. c x x = 0) \<and> (\<forall>x y. c y x = - c x y) \<and>
      (\<forall>x y z. c x y \<le> 0 \<and> c y z \<le> 0 \<longrightarrow> c x z \<le> 0))"

definition lexComparator :: "('a \<Rightarrow> 'a \<Rightarrow> int) \<Rightarrow> ('a \<Rightarrow> 'a \<Rightarrow> int) \<Rightarrow> 'a \<Rightarrow> 'a \<Rightarrow> int" where
  "lexComparator c1 c2 x y = (if c1 x y \<noteq> 0 then c1 x y else c2 x y)"

definition keyAt :: "string \<Rightarrow> nat \<Rightarrow> int" where
  "keyAt a i = (if i < length a then charOrder (a ! i) else 0)"

definition nextRest :: "string \<Rightarrow> string" where
  "nextRest a = snd (extractDigits (snd (extractNonDigits a)))"

definition compareBlock :: "string \<Rightarrow> string \<Rightarrow> int" where
  "compareBlock =
     lexComparator
       (\<lambda>a b. compareNonDigits (fst (extractNonDigits a)) (fst (extractNonDigits b)))
       (\<lambda>a b. compareDigits (fst (extractDigits (snd (extractNonDigits a))))
                             (fst (extractDigits (snd (extractNonDigits b)))))"

section \<open>internal/deb: packages\<close>

text \<open>The \<open>Package\<close> struct; \<open>int64\<close> fields are 64-bit words read as signed.\<close>

type_synonym int64 = "64 word"

record Package =
  Name :: string
  Version :: string
  Architecture :: string
  Maintainer :: string
  Description :: string
  Depends :: string
  PreDepends :: string
  Recommends :: string
  Suggests :: string
  Conflicts :: string
  Provides :: string
  Replaces :: string
  Section :: string
  Priority :: string
  Homepage :: string
  Size :: int64
  InstalledSize :: int64
  Filename :: string
  MD5sum :: string
  SHA1 :: string
  SHA256 :: string

subsection \<open>path/filepath\<close>

text \<open>\<open>strings.Join(es, "/")\<close>.\<close>

definition joinSlash :: "string list \<Rightarrow> string" where
  "joinSlash es = concat (case es of [] \<Rightarrow> [] | e # r \<Rightarrow> e # map (\<lambda>x. CHR ''/'' # x) r)"

text \<open>The path elements between the slashes, empty ones included.\<close>

fun splitSlash :: "string \<Rightarrow> string list" where
  "splitSlash [] = [[]]"
| "splitSlash (c # cs) =
     (if c = CHR ''/'' then [] # splitSlash cs
      else (case splitSlash cs of [] \<Rightarrow> [[c]] | x # xs \<Rightarrow> (c # x) # xs))"

text \<open>
  The loop of \<open>filepath.Clean\<close>, element by element: \<open>out\<close> holds the elements written
  so far. An empty element and \<open>.\<close> are skipped; \<open>..\<close> removes the last element written
  when there is one to remove (\<open>out.w > dotdot\<close>: the written elements are a run of
  \<open>..\<close> followed by proper names, and only a proper name is removed), is written when
  the path is not rooted, and is dropped at the root.
\<close>

fun cleanElems :: "bool \<Rightarrow> string list \<Rightarrow> string list \<Rightarrow> string list" where
  "cleanElems rooted out [] = out"
| "cleanElems rooted out (e # es) =
     (if e = [] \<or> e = ''.'' then cleanElems rooted out es
      else if e = ''..'' then
        (if out \<noteq> [] \<and> last out \<noteq> ''..'' then cleanElems rooted (butlast out) es
         else if \<not> rooted then cleanElems rooted (out @ [''..'']) es
         else cleanElems rooted out es)
      else cleanElems rooted (out @ [e]) es)"

definition Clean :: "string \<Rightarrow> string" where
  "Clean path =
     (if path = [] then ''.''
      else
        let rooted = (hd path = CHR ''/'');
            out = cleanElems rooted [] (splitSlash path)
        in if rooted then CHR ''/'' # joinSlash out
           else if out = [] then ''.'' else joinSlash out)"

text \<open>
  \<open>filepath.Join\<close>: leading empty elements are skipped, the others are joined with
  slashes and the result is cleaned; with no non-empty element the result is empty.
\<close>

definition Join :: "string list \<Rightarrow> string" where
  "Join elem =
     (case dropWhile (\<lambda>e. e = []) elem of
        [] \<Rightarrow> []
      | e # es \<Rightarrow> Clean (joinSlash (e # es)))"

subsection \<open>PoolPath\<close>

text \<open>\<open>None\<close> stands for the panic of \<open>p.Name[:1]\<close> on an empty name.\<close>

definition PoolPath :: "Package \<Rightarrow> string \<Rightarrow> string option" where
  "PoolPath p filename =
     (if HasPrefix (Name p) ''lib'' \<and> length (Name p) > 3
      then Some (Join [''pool'', ''main'', take 4 (Name p), Name p, filename])
      else if length (Name p) < 1 then None
      else Some (Join [''pool'', ''main'', take 1 (Name p), Name p, filename]))"

text \<open>
  A path element that \<open>filepath.Clean\<close> leaves alone: non-empty, without slash, and
  neither \<open>.\<close> nor \<open>..\<close>.
\<close>

definition plainElem :: "string \<Rightarrow> bool" where
  "plainElem e = (e \<noteq> [] \<and> CHR ''/'' \<notin> set e \<and> e \<noteq> ''.'' \<and> e \<noteq> ''..'')"

text \<open>The prefix directory as the specification words it.\<close>

definition poolPrefix :: "string \<Rightarrow> string" where
  "poolPrefix name = (if HasPrefix name ''lib'' \<and> length name > 3 then take 4 name else take 1 name)"

text \<open>The path \<open>pool/main/<prefix>/<name>/<filename>\<close> as the specification words it.\<close>

definition poolPathFormat :: "string \<Rightarrow> string \<Rightarrow> string" where
  "poolPathFormat name filename =
     ''pool/main/'' @ poolPrefix name @ ''/'' @ name @ ''/'' @ filename"

text \<open>The zero value \<open>&Package{}\<close>.\<close>

definition emptyPackage :: Package where
  "emptyPackage =
     \<lparr>Name = [], Version = [], Architecture = [], Maintainer = [], Description = [],
      Depends = [], PreDepends = [], Recommends = [], Suggests = [], Conflicts = [],
      Provides = [], Replaces = [], Section = [], Priority = [], Homepage = [],
      Size = 0, InstalledSize = 0, Filename = [], MD5sum = [], SHA1 = [], SHA256 = []\<rparr>"

subsection \<open>Errors\<close>

text \<open>
  Go error values: a message (\<open>errors.New\<close>, \<open>fmt.Errorf\<close> without \<open>%w\<close>), an error
  wrapped behind a prefix (\<open>fmt.Errorf("prefix: %w", err)\<close>), an error of the operating
  system on a path (\<open>*fs.PathError\<close>), and an error of a decoder or a stream.
\<close>

datatype errno = ENOENT | EACCES | EIO | EROFS | ENOSPC | ENOTEMPTY

datatype error =
    ErrorString string
  | WrapError string error
  | PathError string string errno
  | StreamError string

text \<open>\<open>os.IsNotExist\<close> looks into a \<open>PathError\<close> but not through \<open>fmt.Errorf\<close> wrapping.\<close>

fun IsNotExist :: "error \<Rightarrow> bool" where
  "IsNotExist (PathError op path e) = (e = ENOENT)"
| "IsNotExist _ = False"

definition TrimPrefix :: "string \<Rightarrow> string \<Rightarrow> string" where
  "TrimPrefix s p = (if HasPrefix s p then drop (length p) s else s)"

subsection \<open>extractControl\<close>

text \<open>
  One step of a \<open>tar.Reader\<close>: \<open>Next\<close> either fails or returns a header, whose content
  \<open>io.ReadAll\<close> then reads or fails to read. The end of the list is \<open>io.EOF\<close>.
\<close>

datatype tarItem = TarEntry string "error + string" | TarFail error

text \<open>
  What the readers and the operating system answer during one call of \<open>extractControl\<close>:
  the payload of the archive member read in full, the same payload opened as gzip and
  read as tar, the payload read as tar directly, and the three steps that stage the
  payload in a temporary file.
\<close>

record controlIO =
  readAll :: "error + string"
  gzipTar :: "error + tarItem list"
  plainTar :: "tarItem list"
  createTemp :: "error + string"
  writeTemp :: "error option"
  closeTemp :: "error option"

fun findControlInTar :: "tarItem list \<Rightarrow> error + string" where
  "findControlInTar [] = Inl (ErrorString ''control file not found in tar'')"
| "findControlInTar (TarFail err # rest) = Inl (WrapError ''read tar'' err)"
| "findControlInTar (TarEntry name content # rest) =
     (if TrimPrefix name ''./'' = ''control'' then content else findControlInTar rest)"

definition extractControlWithCmd :: "string \<Rightarrow> string list \<Rightarrow> error + string" where
  "extractControlWithCmd cmd args =
     Inl (ErrorString ''xz/zstd decompression not implemented - use gzip'')"

definition extractControlFromXz :: "controlIO \<Rightarrow> string \<Rightarrow> error + string" where
  "extractControlFromXz io data =
     (case createTemp io of
        Inl err \<Rightarrow> Inl err
      | Inr tmpName \<Rightarrow>
          (case writeTemp io of
             Some err \<Rightarrow> Inl err
           | None \<Rightarrow>
               (case closeTemp io of
                  Some err \<Rightarrow> Inl err
                | None \<Rightarrow> extractControlWithCmd ''xz'' [''-dk'', ''-c'', tmpName])))"

definition extractControlFromZstd :: "controlIO \<Rightarrow> string \<Rightarrow> error + string" where
  "extractControlFromZstd io data =
     (case createTemp io of
        Inl err \<Rightarrow> Inl err
      | Inr tmpName \<Rightarrow>
          (case writeTemp io of
             Some err \<Rightarrow> Inl err
           | None \<Rightarrow>
               (case closeTemp io of
                  Some err \<Rightarrow> Inl err
                | None \<Rightarrow> extractControlWithCmd ''zstd'' [''-d'', ''-c'', tmpName])))"

definition extractControl :: "controlIO \<Rightarrow> string \<Rightarrow> error + string" where
  "extractControl io archiveName =
     (if HasSuffix archiveName ''.gz'' then
        (case gzipTar io of
           Inl err \<Rightarrow> Inl (WrapError ''open gzip'' err)
         | Inr items \<Rightarrow> findControlInTar items)
      else if HasSuffix archiveName ''.xz'' then
        (case readAll io of
           Inl err \<Rightarrow> Inl (WrapError ''read xz data'' err)
         | Inr data \<Rightarrow> extractControlFromXz io data)
      else if HasSuffix archiveName ''.zst'' then
        (case readAll io of
           Inl err \<Rightarrow> Inl (WrapError ''read zst data'' err)
         | Inr data \<Rightarrow> extractControlFromZstd io data)
      else findControlInTar (plainTar io))"

subsection \<open>unicode/utf8 and strings.TrimSpace\<close>

definition RuneError :: int where
  "RuneError = 65533"

text \<open>
  \<open>utf8.DecodeRuneInString\<close>: the first rune of a string and its width in bytes. A byte
  sequence that is not valid UTF-8 decodes to \<open>RuneError\<close> of width 1.
\<close>

definition DecodeRune :: "string \<Rightarrow> int \<times> nat" where
  "DecodeRune s =
     (if s = [] then (RuneError, 0)
      else
        let b0 = byte (s ! 0) in
        if b0 < 128 then (b0, 1)
        else if b0 < 194 \<or> 244 < b0 then (RuneError, 1)
        else
          let sz = (if b0 < 224 then 2 else if b0 < 240 then 3 else 4 :: nat);
              lo = (if b0 = 224 then 160 else if b0 = 240 then 144 else 128);
              hi = (if b0 = 237 then 159 else if b0 = 244 then 143 else 191)
          in if length s < sz then (RuneError, 1)
             else
               let b1 = byte (s ! 1) in
               if b1 < lo \<or> hi < b1 then (RuneError, 1)
               else if sz \<le> 2 then ((b0 mod 32) * 64 + b1 mod 64, 2)
               else
                 let b2 = byte (s ! 2) in
                 if b2 < 128 \<or> 191 < b2 then (RuneError, 1)
                 else if sz \<le> 3 then ((b0 mod 16) * 4096 + (b1 mod 64) * 64 + b2 mod 64, 3)
                 else
                   let b3 = byte (s ! 3) in
                   if b3 < 128 \<or> 191 < b3 then (RuneError, 1)
                   else ((b0 mod 8) * 262144 + (b1 mod 64) * 4096 + (b2 mod 64) * 64
                          + b3 mod 64, 4))"

text \<open>
  The backward search of \<open>utf8.DecodeLastRuneInString\<close> for the byte that starts the
  last rune: from \<open>start\<close> down to \<open>lim\<close>, stopping at a byte that is no continuation
  byte.
\<close>

function lastRuneStart :: "string \<Rightarrow> int \<Rightarrow> int \<Rightarrow> int" where
  "lastRuneStart s lim start =
     (if start \<ge> lim then
        (if byte (s ! nat start) div 64 \<noteq> 2 then start
         else lastRuneStart s lim (start - 1))
      else start)"
  by pat_completeness auto
termination
  by (relation "measure (\<lambda>(s, lim, start). nat (start - lim + 1))") auto

declare lastRuneStart.simps [simp del]

definition DecodeLastRune :: "string \<Rightarrow> int \<times> nat" where
  "DecodeLastRune s =
     (if s = [] then (RuneError, 0)
      else
        let end = int (length s);
            r = byte (last s)
        in if r < 128 then (r, 1)
           else
             let lim = max (end - 4) 0;
                 start0 = lastRuneStart s lim (end - 2);
                 start = (if start0 < 0 then 0 else start0);
                 dec = DecodeRune (drop (nat start) s)
             in if start + int (snd dec) \<noteq> end then (RuneError, 1) else dec)"

text \<open>\<open>unicode.IsSpace\<close>.\<close>

definition IsSpace :: "int \<Rightarrow> bool" where
  "IsSpace r =
     (if r \<le> 255 then r = 9 \<or> r = 10 \<or> r = 11 \<or> r = 12 \<or> r = 13 \<or> r = 32 \<or> r = 133 \<or> r = 160
      else r = 5760 \<or> (8192 \<le> r \<and> r \<le> 8202) \<or> r = 8232 \<or> r = 8233 \<or> r = 8239
           \<or> r = 8287 \<or> r = 12288)"

definition asciiSpace :: "char \<Rightarrow> bool" where
  "asciiSpace c = (byte c = 9 \<or> byte c = 10 \<or> byte c = 11 \<or> byte c = 12 \<or> byte c = 13 \<or> byte c = 32)"

text \<open>\<open>strings.TrimLeftFunc(s, unicode.IsSpace)\<close>.\<close>

function TrimLeftSpace :: "string \<Rightarrow> string" where
  "TrimLeftSpace s =
     (if s = [] then []
      else if IsSpace (fst (DecodeRune s)) then TrimLeftSpace (drop (snd (DecodeRune s)) s)
      else s)"
  by pat_completeness auto
termination
proof (relation "measure length", goal_cases)
  case 1
  show ?case by simp
next
  case (2 s)
  have pos_if: "0 < snd (if c then x else y)" if "0 < snd x" "0 < snd y"
    for c and x y :: "int \<times> nat"
    using that by simp
  from 2 have "0 < snd (DecodeRune s)"
    unfolding DecodeRune_def Let_def
    by (simp split del: if_split) (intro pos_if; simp)
  with 2 show ?case by simp
qed

text \<open>
  \<open>lastIndexFunc(s, unicode.IsSpace, false)\<close>: the index where the last rune that is no
  space starts, or -1. The argument is the prefix \<open>s[0:i]\<close> still to be looked at.
\<close>

function lastIndexNotSpace :: "string \<Rightarrow> int" where
  "lastIndexNotSpace p =
     (if p = [] then - 1
      else if \<not> IsSpace (fst (DecodeLastRune p)) then int (length p) - int (snd (DecodeLastRune p))
      else lastIndexNotSpace (take (length p - snd (DecodeLastRune p)) p))"
  by pat_completeness auto
termination
proof (relation "measure length", goal_cases)
  case 1
  show ?case by simp
next
  case (2 p)
  have pos_if: "0 < snd (if c then x else y)" if "0 < snd x" "0 < snd y"
    for c and x y :: "int \<times> nat"
    using that by simp
  have "0 < snd (DecodeRune t)" if "t \<noteq> []" for t
    using that unfolding DecodeRune_def Let_def
    by (simp split del: if_split) (intro pos_if; simp)
  then have "0 < snd (DecodeRune (drop n p))" if "n < length p" for n
    using that by simp
  moreover have "nat (if x < 0 then 0 else x) < length p" if "x \<le> int (length p) - 2" for x
    using that 2 by auto
  moreover have "lastRuneStart p lim st \<le> st" for lim st
  proof (induction p lim st rule: lastRuneStart.induct)
    case (1 s lim start)
    show ?case
    proof (cases "start \<ge> lim \<and> byte (s ! nat start) div 64 = 2")
      case True
      then have "lastRuneStart s lim (start - 1) \<le> start - 1"
        using 1 by simp
      moreover have "lastRuneStart s lim start = lastRuneStart s lim (start - 1)"
        using True by (subst lastRuneStart.simps) simp
      ultimately show ?thesis by simp
    next
      case False
      then have "lastRuneStart s lim start = start"
        by (subst lastRuneStart.simps) auto
      then show ?thesis by simp
    qed
  qed
  ultimately have "0 < snd (DecodeLastRune p)"
    using 2 unfolding DecodeLastRune_def Let_def
    by (simp split del: if_split) (intro pos_if; simp)
  with 2 show ?case by simp
qed

text \<open>\<open>strings.TrimRightFunc(s, unicode.IsSpace)\<close>.\<close>

definition TrimRightSpace :: "string \<Rightarrow> string" where
  "TrimRightSpace s =
     (let i = lastIndexNotSpace s
      in if i \<ge> 0 \<and> byte (s ! nat i) \<ge> 128
         then take (nat i + snd (DecodeRune (drop (nat i) s))) s
         else take (nat (i + 1)) s)"

text \<open>
  The second loop of \<open>strings.TrimSpace\<close>, over \<open>s[start:stop]\<close>: ASCII spaces are cut from
  the end, and a byte of 128 or more hands over to \<open>TrimRightFunc\<close>.
\<close>

function trimSpaceStop :: "string \<Rightarrow> string" where
  "trimSpaceStop s =
     (if s = [] then []
      else if byte (last s) \<ge> 128 then TrimRightSpace s
      else if asciiSpace (last s) then trimSpaceStop (butlast s)
      else s)"
  by pat_completeness auto
termination
  by (relation "measure length") auto

text \<open>
  \<open>strings.TrimSpace\<close>: the first loop cuts ASCII spaces from the front and hands over
  to \<open>TrimFunc\<close> at a byte of 128 or more.
\<close>

fun TrimSpace :: "string \<Rightarrow> string" where
  "TrimSpace [] = []"
| "TrimSpace (c # cs) =
     (if byte c \<ge> 128 then TrimRightSpace (TrimLeftSpace (c # cs))
      else if asciiSpace c then TrimSpace cs
      else trimSpaceStop (c # cs))"

subsection \<open>strconv.FormatInt\<close>

definition digitChar :: "int \<Rightarrow> char" where
  "digitChar d = char_of (48 + d)"

text \<open>The decimal digits of a number that is not negative.\<close>

function formatBits :: "int \<Rightarrow> string" where
  "formatBits u = (if u < 10 then [digitChar u] else formatBits (u div 10) @ [digitChar (u mod 10)])"
  by pat_completeness auto
termination
  by (relation "measure nat") auto

definition FormatInt :: "int \<Rightarrow> string" where
  "FormatInt i = (if i < 0 then CHR ''-'' # formatBits (- i) else formatBits i)"

subsection \<open>bufio.Scanner with the default split function ScanLines\<close>

definition maxScanTokenSize :: int where
  "maxScanTokenSize = 65536"

definition dropCR :: "string \<Rightarrow> string" where
  "dropCR line = (if line \<noteq> [] \<and> last line = CHR 0x0D then butlast line else line)"

text \<open>
  The lines \<open>scanner.Scan\<close> yields before it returns false: the text is cut at line
  feeds, one trailing carriage return is dropped from each line, and an empty rest
  yields no line. A line of \<open>maxScanTokenSize\<close> bytes or more does not fit the buffer:
  \<open>Scan\<close> returns false there (with \<open>ErrTooLong\<close>, which \<open>parseControl\<close> does not look
  at), so the lines before it are all there is.
\<close>

function scanLines :: "string \<Rightarrow> string list" where
  "scanLines data =
     (if data = [] then []
      else
        let line = takeWhile (\<lambda>c. c \<noteq> CHR 0x0A) data;
            rest = dropWhile (\<lambda>c. c \<noteq> CHR 0x0A) data
        in if int (length line) \<ge> maxScanTokenSize then []
           else dropCR line # scanLines (tl rest))"
  by pat_completeness auto
termination
proof (relation "measure length", goal_cases)
  case 1
  show ?case by simp
next
  case (2 data line rest)
  have "length (tl (dropWhile (\<lambda>c. c \<noteq> CHR 0x0A) data)) < length data"
  proof (cases "dropWhile (\<lambda>c. c \<noteq> CHR 0x0A) data")
    case Nil
    then have "length (tl (dropWhile (\<lambda>c. c \<noteq> CHR 0x0A) data)) = 0"
      by (simp only: list.sel list.size)
    moreover have "0 < length data"
      using 2 by simp
    ultimately show ?thesis by linarith
  next
    case (Cons c cs)
    have "length (dropWhile (\<lambda>c. c \<noteq> CHR 0x0A) data) \<le> length data"
      by (rule length_dropWhile_le)
    with Cons show ?thesis by simp
  qed
  with 2 show ?case by simp
qed

declare scanLines.simps [simp del]

subsection \<open>parseControl\<close>

text \<open>\<open>strings.Index(s, string(c))\<close> for a single byte: the first index of the byte, or -1.\<close>

definition IndexByte :: "string \<Rightarrow> char \<Rightarrow> int" where
  "IndexByte s c = (if c \<in> set s then int (length (takeWhile (\<lambda>x. x \<noteq> c) s)) else - 1)"

text \<open>
  The closure \<open>saveField\<close>, with the variables it captures as arguments. A value of
  \<open>Installed-Size\<close> that \<open>ParseInt\<close> rejects leaves the field as it is.
\<close>

definition saveField :: "Package \<Rightarrow> string \<Rightarrow> string \<Rightarrow> Package" where
  "saveField pkg currentField currentValue =
     (if currentField = [] then pkg
      else
        let val = TrimSpace currentValue in
        if currentField = ''Package'' then pkg\<lparr>Name := val\<rparr>
        else if currentField = ''Version'' then pkg\<lparr>Version := val\<rparr>
        else if currentField = ''Architecture'' then pkg\<lparr>Architecture := val\<rparr>
        else if currentField = ''Maintainer'' then pkg\<lparr>Maintainer := val\<rparr>
        else if currentField = ''Description'' then pkg\<lparr>Description := val\<rparr>
        else if currentField = ''Depends'' then pkg\<lparr>Depends := val\<rparr>
        else if currentField = ''Pre-Depends'' then pkg\<lparr>PreDepends := val\<rparr>
        else if currentField = ''Recommends'' then pkg\<lparr>Recommends := val\<rparr>
        else if currentField = ''Suggests'' then pkg\<lparr>Suggests := val\<rparr>
        else if currentField = ''Conflicts'' then pkg\<lparr>Conflicts := val\<rparr>
        else if currentField = ''Provides'' then pkg\<lparr>Provides := val\<rparr>
        else if currentField = ''Replaces'' then pkg\<lparr>Replaces := val\<rparr>
        else if currentField = ''Section'' then pkg\<lparr>Section := val\<rparr>
        else if currentField = ''Priority'' then pkg\<lparr>Priority := val\<rparr>
        else if currentField = ''Homepage'' then pkg\<lparr>Homepage := val\<rparr>
        else if currentField = ''Installed-Size'' then
          (if snd (ParseInt val) = None then pkg\<lparr>InstalledSize := word_of_int (fst (ParseInt val))\<rparr>
           else pkg)
        else pkg)"

text \<open>
  One round of the scanning loop on the state \<open>(pkg, currentField, currentValue)\<close>. A
  line without a colon after its first byte saves the running field and leaves
  \<open>currentField\<close> and \<open>currentValue\<close> as they are.
\<close>

definition parseLine :: "Package \<times> string \<times> string \<Rightarrow> string \<Rightarrow> Package \<times> string \<times> string" where
  "parseLine st line =
     (case st of (pkg, currentField, currentValue) \<Rightarrow>
        if length line > 0 \<and> (line ! 0 = CHR '' '' \<or> line ! 0 = CHR 0x09)
        then (pkg, currentField, currentValue @ [CHR 0x0A] @ line)
        else
          let pkg1 = saveField pkg currentField currentValue;
              idx = IndexByte line (CHR '':'')
          in if idx > 0
             then (pkg1, take (nat idx) line,
                   (if idx + 1 < int (length line) then TrimSpace (drop (nat (idx + 1)) line)
                    else []))
             else (pkg1, currentField, currentValue))"

definition parseControl :: "string \<Rightarrow> error + Package" where
  "parseControl data =
     (case foldl parseLine (emptyPackage, [], []) (scanLines data) of
        (pkg0, currentField, currentValue) \<Rightarrow>
          let pkg = saveField pkg0 currentField currentValue in
          if Name pkg = [] then Inl (ErrorString ''missing Package field'')
          else if Version pkg = [] then Inl (ErrorString ''missing Version field'')
          else if Architecture pkg = [] then Inl (ErrorString ''missing Architecture field'')
          else Inr pkg)"

subsection \<open>ControlString\<close>

text \<open>The closure \<open>writeField\<close>, with the builder as argument and result.\<close>

definition writeField :: "string \<Rightarrow> string \<Rightarrow> string \<Rightarrow> string" where
  "writeField b name val = (if val \<noteq> [] then b @ name @ '': '' @ val @ [CHR 0x0A] else b)"

definition ControlString :: "Package \<Rightarrow> string" where
  "ControlString p =
     (let b = writeField [] ''Package'' (Name p);
          b = writeField b ''Version'' (Version p);
          b = writeField b ''Architecture'' (Architecture p);
          b = writeField b ''Maintainer'' (Maintainer p);
          b = (if sint (InstalledSize p) > 0
               then writeField b ''Installed-Size'' (FormatInt (sint (InstalledSize p)))
               else b);
          b = writeField b ''Pre-Depends'' (PreDepends p);
          b = writeField b ''Depends'' (Depends p);
          b = writeField b ''Recommends'' (Recommends p);
          b = writeField b ''Suggests'' (Suggests p);
          b = writeField b ''Conflicts'' (Conflicts p);
          b = writeField b ''Provides'' (Provides p);
          b = writeField b ''Replaces'' (Replaces p);
          b = writeField b ''Section'' (Section p);
          b = writeField b ''Priority'' (Priority p);
          b = writeField b ''Homepage'' (Homepage p);
          b = writeField b ''Filename'' (Filename p);
          b = writeField b ''Size'' (FormatInt (sint (Size p)));
          b = writeField b ''MD5sum'' (MD5sum p);
          b = writeField b ''SHA1'' (SHA1 p);
          b = writeField b ''SHA256'' (SHA256 p);
          b = writeField b ''Description'' (Description p)
      in b)"

text \<open>A record for the examples below.\<close>

definition samplePackage :: Package where
  "samplePackage =
     emptyPackage\<lparr>Name := ''pkg'', Version := ''1.0'', Architecture := ''amd64'',
       Description := ''short'', InstalledSize := 12, Size := 2048,
       Filename := ''pool/main/p/pkg/pkg_1.0_amd64.deb'', MD5sum := ''d41d8cd9'',
       SHA1 := ''da39a3ee'', SHA256 := ''e3b0c442''\<rparr>"

subsection \<open>The round trip through ControlString and parseControl\<close>

text \<open>A field as \<open>writeField\<close> writes it, without and with its line feed.\<close>

definition fieldLine :: "string \<times> string \<Rightarrow> string" where
  "fieldLine f = fst f @ '': '' @ snd f"

definition renderField :: "string \<times> string \<Rightarrow> string" where
  "renderField f = (if snd f = [] then [] else fieldLine f @ [CHR 0x0A])"

text \<open>The fields \<open>ControlString\<close> writes, in its order, as pairs of name and value.\<close>

definition controlFields :: "Package \<Rightarrow> (string \<times> string) list" where
  "controlFields p =
     [(''Package'', Name p), (''Version'', Version p), (''Architecture'', Architecture p),
      (''Maintainer'', Maintainer p),
      (''Installed-Size'',
         if sint (InstalledSize p) > 0 then FormatInt (sint (InstalledSize p)) else []),
      (''Pre-Depends'', PreDepends p), (''Depends'', Depends p),
      (''Recommends'', Recommends p), (''Suggests'', Suggests p),
      (''Conflicts'', Conflicts p), (''Provides'', Provides p), (''Replaces'', Replaces p),
      (''Section'', Section p), (''Priority'', Priority p), (''Homepage'', Homepage p),
      (''Filename'', Filename p), (''Size'', FormatInt (sint (Size p))),
      (''MD5sum'', MD5sum p), (''SHA1'', SHA1 p), (''SHA256'', SHA256 p),
      (''Description'', Description p)]"

text \<open>
  A field name that \<open>parseControl\<close> reads back as it is: no line feed and no colon in
  it, and no blank or tab in front.
\<close>

definition nameOK :: "string \<Rightarrow> bool" where
  "nameOK n = (n \<noteq> [] \<and> CHR 0x0A \<notin> set n \<and> CHR '':'' \<notin> set n
               \<and> hd n \<noteq> CHR '' '' \<and> hd n \<noteq> CHR 0x09)"

text \<open>The lines of a value: \<open>strings.Split(v, "\n")\<close>.\<close>

fun splitLines :: "string \<Rightarrow> string list" where
  "splitLines [] = [[]]"
| "splitLines (c # cs) =
     (if c = CHR 0x0A then [] # splitLines cs
      else (case splitLines cs of [] \<Rightarrow> [[c]] | x # xs \<Rightarrow> (c # x) # xs))"

text \<open>
  A field value that survives the scanner and the trimming: empty (then the field is
  not written), or a first line followed by any number of continuation lines, where
  \<open>TrimSpace\<close> changes neither the value nor its first line, every continuation line
  starts with a blank or a tab, no line ends in a carriage return (\<open>dropCR\<close>), and the
  line \<open>name: first line\<close> and every continuation line fit the scanner's buffer.
\<close>

definition valueOK :: "string \<Rightarrow> string \<Rightarrow> bool" where
  "valueOK name v =
     (v = [] \<or>
      (TrimSpace v = v \<and> TrimSpace (hd (splitLines v)) = hd (splitLines v)
       \<and> int (length name) + 2 + int (length (hd (splitLines v))) < maxScanTokenSize
       \<and> (\<forall>l\<in>set (splitLines v). dropCR l = l)
       \<and> (\<forall>l\<in>set (tl (splitLines v)).
              l \<noteq> [] \<and> (hd l = CHR '' '' \<or> hd l = CHR 0x09)
              \<and> int (length l) < maxScanTokenSize)))"

text \<open>The lines \<open>writeField\<close> writes for a field.\<close>

definition fieldLines :: "string \<times> string \<Rightarrow> string list" where
  "fieldLines f = (fst f @ '': '' @ hd (splitLines (snd f))) # tl (splitLines (snd f))"

text \<open>\<open>saveField\<close> on a pair of name and value.\<close>

definition assign :: "Package \<Rightarrow> string \<times> string \<Rightarrow> Package" where
  "assign pkg f = saveField pkg (fst f) (snd f)"

text \<open>
  The value a field ends with after a run of \<open>saveField\<close> calls: the last value saved
  under its name, trimmed (\<open>lookStr\<close>) or as it is and skipping empty values
  (\<open>lookRaw\<close>), and for \<open>Installed-Size\<close> the last value that \<open>ParseInt\<close> accepts.
\<close>

definition lookStr :: "string \<Rightarrow> (string \<times> string) list \<Rightarrow> string \<Rightarrow> string" where
  "lookStr n fs d = foldl (\<lambda>acc f. if fst f = n then TrimSpace (snd f) else acc) d fs"

definition lookRaw :: "string \<Rightarrow> (string \<times> string) list \<Rightarrow> string \<Rightarrow> string" where
  "lookRaw n fs d = foldl (\<lambda>acc f. if fst f = n \<and> snd f \<noteq> [] then snd f else acc) d fs"

definition lookSize :: "(string \<times> string) list \<Rightarrow> int64 \<Rightarrow> int64" where
  "lookSize fs d =
     foldl (\<lambda>acc f. if fst f = ''Installed-Size'' \<and> snd (ParseInt (TrimSpace (snd f))) = None
                     then word_of_int (fst (ParseInt (TrimSpace (snd f)))) else acc) d fs"

text \<open>The nineteen text fields of a record, under the names \<open>ControlString\<close> gives them.\<close>

definition stringFields :: "Package \<Rightarrow> (string \<times> string) list" where
  "stringFields p =
     [(''Package'', Name p), (''Version'', Version p), (''Architecture'', Architecture p),
      (''Maintainer'', Maintainer p), (''Pre-Depends'', PreDepends p),
      (''Depends'', Depends p), (''Recommends'', Recommends p), (''Suggests'', Suggests p),
      (''Conflicts'', Conflicts p), (''Provides'', Provides p), (''Replaces'', Replaces p),
      (''Section'', Section p), (''Priority'', Priority p), (''Homepage'', Homepage p),
      (''Filename'', Filename p), (''MD5sum'', MD5sum p), (''SHA1'', SHA1 p),
      (''SHA256'', SHA256 p), (''Description'', Description p)]"

definition roundTripOK :: "Package \<Rightarrow> bool" where
  "roundTripOK p = list_all (\<lambda>f. valueOK (fst f) (snd f)) (stringFields p)"

text \<open>A record with continuation lines, as \<open>parseControl\<close> reads them from a control file.\<close>

definition multiLinePackage :: Package where
  "multiLinePackage =
     samplePackage\<lparr>Depends := ''libc6 (>= 2.34),'' @ [CHR 0x0A] @ '' libssl3'',
       Description := ''short'' @ [CHR 0x0A] @ '' A longer text.'' @ [CHR 0x0A] @ '' .''
                        @ [CHR 0x0A] @ [CHR 0x09] @ ''Its last line.''\<rparr>"

section \<open>internal/repo\<close>

subsection \<open>The pool on disk\<close>

text \<open>
  A node of the directory tree below the pool directory, with what the operating
  system and \<open>deb.Parse\<close> answer for it: its path as \<open>filepath.Walk\<close> reports it, the
  directory that lists it, whether it is a directory, the error \<open>Walk\<close> hands to its
  callback for this path (if any), the result of \<open>deb.Parse\<close> on the path, and the error
  of \<open>os.Remove\<close> on the path (if any). The file system is the list of these nodes in
  the order in which \<open>Walk\<close> visits them, the pool directory first.
\<close>

record node =
  npath :: string
  ndir :: string
  nisDir :: bool
  nwalkErr :: "error option"
  nparse :: "error + Package"
  nremoveErr :: "error option"

type_synonym filesystem = "node list"

text \<open>\<open>os.Remove\<close>: the node of that path disappears, unless the call fails.\<close>

definition osRemove :: "filesystem \<Rightarrow> string \<Rightarrow> error option \<times> filesystem" where
  "osRemove fs path =
     (case find (\<lambda>n. npath n = path) fs of
        None \<Rightarrow> (Some (PathError ''remove'' path ENOENT), fs)
      | Some n \<Rightarrow>
          (case nremoveErr n of
             Some err \<Rightarrow> (Some err, fs)
           | None \<Rightarrow> (None, filter (\<lambda>m. npath m \<noteq> path) fs)))"

subsection \<open>Prune\<close>

text \<open>
  The \<open>Repository\<close> struct; its \<open>Config\<close> is not read by \<open>Prune\<close> and \<open>scanPool\<close> and is
  left out.
\<close>

record Repository =
  Root :: string

record PruneOptions =
  KeepVersions :: int
  DryRun :: bool

record PruneResult =
  Deleted :: "string list"
  Kept :: "string list"

text \<open>
  The struct \<open>packageFile\<close>; its field \<open>Version\<close> is called \<open>FileVersion\<close> here, apart
  from the field of \<open>Package\<close>.
\<close>

record packageFile =
  Path :: string
  FileVersion :: string

text \<open>
  The map \<open>packages\<close> from keys to slices, as a list of its entries in the order in
  which the keys were first written. \<open>appendGroup\<close> is
  \<open>packages[key] = append(packages[key], pf)\<close>.
\<close>

type_synonym groups = "(string \<times> packageFile list) list"

fun appendGroup :: "groups \<Rightarrow> string \<Rightarrow> packageFile \<Rightarrow> groups" where
  "appendGroup [] key pf = [(key, [pf])]"
| "appendGroup ((k, pfs) # g) key pf =
     (if k = key then (k, pfs @ [pf]) # g else (k, pfs) # appendGroup g key pf)"

text \<open>
  The first walk of \<open>Prune\<close>: the callback on every node in turn, until it returns an
  error. The result is the map and the error \<open>Walk\<close> returns.
\<close>

fun pruneWalk :: "node list \<Rightarrow> groups \<Rightarrow> groups \<times> error option" where
  "pruneWalk [] packages = (packages, None)"
| "pruneWalk (n # ns) packages =
     (case nwalkErr n of
        Some err \<Rightarrow> (packages, Some err)
      | None \<Rightarrow>
          if nisDir n \<or> \<not> HasSuffix (npath n) ''.deb'' then pruneWalk ns packages
          else
            (case nparse n of
               Inl err \<Rightarrow> (packages, Some (WrapError (''parse '' @ npath n) err))
             | Inr pkg \<Rightarrow>
                 pruneWalk ns
                   (appendGroup packages (Name pkg @ ''_'' @ Architecture pkg)
                      \<lparr>Path = npath n, FileVersion = Version pkg\<rparr>)))"

text \<open>
  The inner loop of \<open>sortPackageFiles\<close> for one \<open>i\<close>: \<open>cur\<close> is \<open>files[i]\<close>, the list is
  \<open>files[j:]\<close>. The result is the final \<open>files[i]\<close> and the slice behind it.
\<close>

fun sortPass :: "packageFile \<Rightarrow> packageFile list \<Rightarrow> packageFile \<times> packageFile list" where
  "sortPass cur [] = (cur, [])"
| "sortPass cur (f # fs) =
     (if Compare (FileVersion cur) (FileVersion f) < 0
      then (fst (sortPass f fs), cur # snd (sortPass f fs))
      else (fst (sortPass cur fs), f # snd (sortPass cur fs)))"

function sortPackageFiles :: "packageFile list \<Rightarrow> packageFile list" where
  "sortPackageFiles [] = []"
| "sortPackageFiles (f # fs) = fst (sortPass f fs) # sortPackageFiles (snd (sortPass f fs))"
  by pat_completeness auto
termination
proof (relation "measure length", goal_cases)
  case 1
  show ?case by simp
next
  case (2 f fs)
  have "length (snd (sortPass c xs)) = length xs" for c xs
    by (induction xs arbitrary: c) simp_all
  then show ?case by simp
qed

text \<open>
  The loop over one sorted group, from index \<open>i\<close> on. It stops at the first
  \<open>os.Remove\<close> that fails.
\<close>

fun pruneGroup ::
  "PruneOptions \<Rightarrow> int \<Rightarrow> packageFile list \<Rightarrow> PruneResult \<Rightarrow> filesystem
   \<Rightarrow> error option \<times> PruneResult \<times> filesystem" where
  "pruneGroup opts i [] result fs = (None, result, fs)"
| "pruneGroup opts i (pf # pfs) result fs =
     (if i < KeepVersions opts
      then pruneGroup opts (i + 1) pfs (result\<lparr>Kept := Kept result @ [Path pf]\<rparr>) fs
      else
        (let result1 = result\<lparr>Deleted := Deleted result @ [Path pf]\<rparr>
         in if \<not> DryRun opts then
              (case osRemove fs (Path pf) of
                 (Some err, fs1) \<Rightarrow> (Some (WrapError (''delete '' @ Path pf) err), result1, fs1)
               | (None, fs1) \<Rightarrow> pruneGroup opts (i + 1) pfs result1 fs1)
            else pruneGroup opts (i + 1) pfs result1 fs))"

fun pruneGroups ::
  "PruneOptions \<Rightarrow> groups \<Rightarrow> PruneResult \<Rightarrow> filesystem
   \<Rightarrow> error option \<times> PruneResult \<times> filesystem" where
  "pruneGroups opts [] result fs = (None, result, fs)"
| "pruneGroups opts ((key, pkgs) # rest) result fs =
     (case pruneGroup opts 0 (sortPackageFiles pkgs) result fs of
        (Some err, result1, fs1) \<Rightarrow> (Some err, result1, fs1)
      | (None, result1, fs1) \<Rightarrow> pruneGroups opts rest result1 fs1)"

text \<open>
  The walk of \<open>cleanEmptyDirs\<close> over the nodes still to visit: a directory other than
  the root that lists no node is removed.
\<close>

fun cleanWalk :: "string \<Rightarrow> node list \<Rightarrow> filesystem \<Rightarrow> error option \<times> filesystem" where
  "cleanWalk root [] fs = (None, fs)"
| "cleanWalk root (n # ns) fs =
     (case nwalkErr n of
        Some err \<Rightarrow> (Some err, fs)
      | None \<Rightarrow>
          if \<not> nisDir n then cleanWalk root ns fs
          else if filter (\<lambda>m. ndir m = npath n) fs = [] \<and> npath n \<noteq> root then
            (case osRemove fs (npath n) of
               (Some err, fs1) \<Rightarrow> (Some err, fs1)
             | (None, fs1) \<Rightarrow> cleanWalk root ns fs1)
          else cleanWalk root ns fs)"

definition cleanEmptyDirs :: "string \<Rightarrow> filesystem \<Rightarrow> error option \<times> filesystem" where
  "cleanEmptyDirs root fs = cleanWalk root fs fs"

text \<open>The part of \<open>Prune\<close> after the first walk.\<close>

definition pruneFinish ::
  "PruneOptions \<Rightarrow> string \<Rightarrow> groups \<Rightarrow> filesystem \<Rightarrow> (error + PruneResult) \<times> filesystem" where
  "pruneFinish opts poolDir packages fs =
     (case pruneGroups opts packages \<lparr>Deleted = [], Kept = []\<rparr> fs of
        (Some err, result, fs1) \<Rightarrow> (Inl err, fs1)
      | (None, result, fs1) \<Rightarrow>
          if \<not> DryRun opts then
            (case cleanEmptyDirs poolDir fs1 of
               (Some err, fs2) \<Rightarrow> (Inl (WrapError ''clean empty directories'' err), fs2)
             | (None, fs2) \<Rightarrow> (Inr result, fs2))
          else (Inr result, fs1))"

text \<open>
  \<open>Prune\<close>. Go ranges over a map in an order it does not specify; \<open>mapOrder\<close> is that
  order, a rearrangement of the entries. The result is what \<open>Prune\<close> returns and the
  file system it leaves.
\<close>

definition Prune ::
  "(groups \<Rightarrow> groups) \<Rightarrow> Repository \<Rightarrow> PruneOptions \<Rightarrow> filesystem
   \<Rightarrow> (error + PruneResult) \<times> filesystem" where
  "Prune mapOrder r opts0 fs =
     (let opts = (if KeepVersions opts0 < 1 then opts0\<lparr>KeepVersions := 5\<rparr> else opts0);
          poolDir = Join [Root r, ''pool'', ''main''];
          walked = pruneWalk fs []
      in case snd walked of
           Some err \<Rightarrow>
             if \<not> IsNotExist err then (Inl err, fs)
             else pruneFinish opts poolDir (mapOrder (fst walked)) fs
         | None \<Rightarrow> pruneFinish opts poolDir (mapOrder (fst walked)) fs)"

text \<open>
  The pool of the specification's scenario below the root \<open>repo\<close>: three archives of the
  package \<open>pkg\<close> for \<open>amd64\<close>, and a file that is no archive.
\<close>

definition archiveNode :: "string \<Rightarrow> string \<Rightarrow> string \<Rightarrow> string \<Rightarrow> string \<Rightarrow> node" where
  "archiveNode dir file name version arch =
     \<lparr>npath = dir @ ''/'' @ file, ndir = dir, nisDir = False, nwalkErr = None,
      nparse = Inr (emptyPackage\<lparr>Name := name, Version := version, Architecture := arch\<rparr>),
      nremoveErr = None\<rparr>"

definition dirNode :: "string \<Rightarrow> string \<Rightarrow> node" where
  "dirNode dir name =
     \<lparr>npath = dir @ ''/'' @ name, ndir = dir, nisDir = True, nwalkErr = None,
      nparse = Inl (StreamError ''is a directory''), nremoveErr = None\<rparr>"

definition scenarioPool :: filesystem where
  "scenarioPool =
     [dirNode ''repo/pool'' ''main'',
      dirNode ''repo/pool/main'' ''p'',
      dirNode ''repo/pool/main/p'' ''pkg'',
      (archiveNode ''repo/pool/main/p/pkg'' ''README'' [] [] [])
        \<lparr>nparse := Inl (StreamError ''not an ar archive'')\<rparr>,
      archiveNode ''repo/pool/main/p/pkg'' ''pkg_1.0_amd64.deb'' ''pkg'' ''1.0'' ''amd64'',
      archiveNode ''repo/pool/main/p/pkg'' ''pkg_1.5_amd64.deb'' ''pkg'' ''1.5'' ''amd64'',
      archiveNode ''repo/pool/main/p/pkg'' ''pkg_2.0_amd64.deb'' ''pkg'' ''2.0'' ''amd64'']"


text \<open>
  A path of the pool that names a regular file ending in \<open>.deb\<close>, and a map whose
  entries all carry such paths.
\<close>

definition fileArchive :: "filesystem \<Rightarrow> string \<Rightarrow> bool" where
  "fileArchive fs p = (\<exists>n\<in>set fs. npath n = p \<and> \<not> nisDir n \<and> HasSuffix p ''.deb'')"

definition archiveGroups :: "filesystem \<Rightarrow> groups \<Rightarrow> bool" where
  "archiveGroups fs g = (\<forall>e\<in>set g. \<forall>pf\<in>set (snd e). fileArchive fs (Path pf))"

subsection \<open>scanPool\<close>








text \<open>
  A pool with two packages whose names and architectures differ and whose keys
  \<open>Name + "_" + Architecture\<close> are the same.
\<close>

definition collisionPool :: filesystem where
  "collisionPool =
     [dirNode ''repo/pool'' ''main'',
      dirNode ''repo/pool/main'' ''t'',
      dirNode ''repo/pool/main/t'' ''tool'',
      archiveNode ''repo/pool/main/t/tool'' ''tool_1.0_linux_amd64.deb''
        ''tool'' ''1.0'' ''linux_amd64'',
      dirNode ''repo/pool/main/t'' ''tool_linux'',
      archiveNode ''repo/pool/main/t/tool_linux'' ''tool_linux_2.0_amd64.deb''
        ''tool_linux'' ''2.0'' ''amd64'']"

section \<open>Properties of the version comparison\<close>

lemma rest_le: "length (dropWhile isDigit (dropWhile (\<lambda>c. \<not> isDigit c) s)) \<le> length s"
  by (meson dual_order.trans length_dropWhile_le)

lemma rest_lt:
  assumes "s \<noteq> []"
  shows "length (dropWhile isDigit (dropWhile (\<lambda>c. \<not> isDigit c) s)) < length s"
proof (cases s)
  case Nil
  with assms show ?thesis by simp
next
  case (Cons c cs)
  show ?thesis
  proof (cases "isDigit c")
    case True
    have "length (dropWhile isDigit cs) \<le> length cs"
      by (rule length_dropWhile_le)
    with True Cons show ?thesis by simp
  next
    case False
    have "length (dropWhile isDigit (dropWhile (\<lambda>c. \<not> isDigit c) cs)) \<le> length cs"
      by (rule rest_le)
    with False Cons show ?thesis by simp
  qed
qed

declare compareNonDigitsFrom.simps [simp del]

declare compareVersionPart.simps [simp del]

lemma isComparatorI:
  assumes "\<And>x. c x x = 0" "\<And>x y. c y x = - c x y"
    "\<And>x y z. c x y \<le> 0 \<Longrightarrow> c y z \<le> 0 \<Longrightarrow> c x z \<le> 0"
  shows "isComparator c"
  using assms unfolding isComparator_def by blast

lemma comparator_refl: "isComparator c \<Longrightarrow> c x x = 0"
  by (simp add: isComparator_def)

lemma comparator_flip: "isComparator c \<Longrightarrow> c y x = - c x y"
  unfolding isComparator_def by blast

lemma comparator_trans: "isComparator c \<Longrightarrow> c x y \<le> 0 \<Longrightarrow> c y z \<le> 0 \<Longrightarrow> c x z \<le> 0"
  unfolding isComparator_def by blast

lemma comparator_trans_less1:
  assumes c: "isComparator c" and xy: "c x y < 0" and yz: "c y z \<le> 0"
  shows "c x z < 0"
proof (rule ccontr)
  assume "\<not> c x z < 0"
  then have "c z x \<le> 0"
    using comparator_flip [OF c, of z x] by simp
  with yz have "c y x \<le> 0"
    by (rule comparator_trans [OF c])
  then show False
    using xy comparator_flip [OF c, of y x] by simp
qed

lemma comparator_trans_less2:
  assumes c: "isComparator c" and xy: "c x y \<le> 0" and yz: "c y z < 0"
  shows "c x z < 0"
proof (rule ccontr)
  assume "\<not> c x z < 0"
  then have "c z x \<le> 0"
    using comparator_flip [OF c, of z x] by simp
  from this xy have "c z y \<le> 0"
    by (rule comparator_trans [OF c])
  then show False
    using yz comparator_flip [OF c, of z y] by simp
qed

lemma comparator_trans_eq:
  assumes c: "isComparator c" and xy: "c x y = 0" and yz: "c y z = 0"
  shows "c x z = 0"
proof -
  have "c x z \<le> 0"
    using comparator_trans [OF c, of x y z] xy yz by simp
  moreover have "c z x \<le> 0"
    using comparator_trans [OF c, of z y x] xy yz comparator_flip [OF c, of z y]
      comparator_flip [OF c, of y x] by simp
  ultimately show ?thesis
    using comparator_flip [OF c, of z x] by simp
qed

lemma isComparator_lex:
  assumes c1: "isComparator c1" and c2: "isComparator c2"
  shows "isComparator (lexComparator c1 c2)"
proof (rule isComparatorI)
  fix x show "lexComparator c1 c2 x x = 0"
    by (simp add: lexComparator_def comparator_refl [OF c1] comparator_refl [OF c2])
next
  fix x y show "lexComparator c1 c2 y x = - lexComparator c1 c2 x y"
    using comparator_flip [OF c1, of y x] comparator_flip [OF c2, of y x]
    by (simp add: lexComparator_def)
next
  fix x y z
  assume xy: "lexComparator c1 c2 x y \<le> 0" and yz: "lexComparator c1 c2 y z \<le> 0"
  have xy1: "c1 x y \<le> 0" and yz1: "c1 y z \<le> 0"
    using xy yz by (auto simp: lexComparator_def split: if_splits)
  consider "c1 x y < 0" | "c1 x y = 0" "c1 y z < 0" | "c1 x y = 0" "c1 y z = 0"
    using xy1 yz1 by linarith
  then show "lexComparator c1 c2 x z \<le> 0"
  proof cases
    case 1
    then have "c1 x z < 0"
      using yz1 by (rule comparator_trans_less1 [OF c1])
    then show ?thesis by (simp add: lexComparator_def)
  next
    case 2
    then have "c1 x z < 0"
      using comparator_trans_less2 [OF c1, of x y z] by simp
    then show ?thesis by (simp add: lexComparator_def)
  next
    case 3
    then have "c1 x z = 0"
      by (rule comparator_trans_eq [OF c1])
    moreover have "c2 x y \<le> 0" "c2 y z \<le> 0"
      using xy yz 3 by (simp_all add: lexComparator_def)
    then have "c2 x z \<le> 0"
      by (rule comparator_trans [OF c2])
    ultimately show ?thesis by (simp add: lexComparator_def)
  qed
qed

lemma isComparator_key:
  fixes k :: "'a \<Rightarrow> int"
  shows "isComparator (\<lambda>x y. if k x < k y then - 1 else if k x > k y then 1 else 0)"
  by (rule isComparatorI) (auto split: if_splits)

lemma isComparator_on: "isComparator c \<Longrightarrow> isComparator (\<lambda>x y. c (f x) (f y))"
  unfolding isComparator_def by blast

lemma compareNonDigitsFrom_exhausted:
  "length a \<le> i \<Longrightarrow> length b \<le> i \<Longrightarrow> compareNonDigitsFrom i a b = 0"
  by (subst compareNonDigitsFrom.simps) simp

lemma compareNonDigitsFrom_step:
  "compareNonDigitsFrom i a b =
     (if keyAt a i \<noteq> keyAt b i then (if keyAt a i < keyAt b i then - 1 else 1)
      else compareNonDigitsFrom (i + 1) a b)"
proof (cases "i < length a \<or> i < length b")
  case True
  then show ?thesis
    by (subst compareNonDigitsFrom.simps) (simp add: keyAt_def Let_def)
next
  case False
  then show ?thesis
    by (simp add: compareNonDigitsFrom_exhausted keyAt_def)
qed

lemma compareNonDigitsFrom_refl: "compareNonDigitsFrom i a a = 0"
proof (induction "length a - i" arbitrary: i)
  case 0
  then show ?case by (simp add: compareNonDigitsFrom_exhausted)
next
  case (Suc n)
  then have "compareNonDigitsFrom (i + 1) a a = 0" by simp
  then show ?case
    by (subst compareNonDigitsFrom_step) simp
qed

lemma compareNonDigitsFrom_flip:
  "compareNonDigitsFrom i b a = - compareNonDigitsFrom i a b"
proof (induction "max (length a) (length b) - i" arbitrary: i)
  case 0
  then show ?case by (simp add: compareNonDigitsFrom_exhausted)
next
  case (Suc n)
  then have "compareNonDigitsFrom (i + 1) b a = - compareNonDigitsFrom (i + 1) a b"
    by simp
  then show ?case
    by (subst compareNonDigitsFrom_step, subst (2) compareNonDigitsFrom_step) auto
qed

lemma compareNonDigitsFrom_trans:
  "compareNonDigitsFrom i a b \<le> 0 \<Longrightarrow> compareNonDigitsFrom i b c \<le> 0
   \<Longrightarrow> compareNonDigitsFrom i a c \<le> 0"
proof (induction "max (length a) (max (length b) (length c)) - i" arbitrary: i)
  case 0
  then show ?case by (simp add: compareNonDigitsFrom_exhausted)
next
  case (Suc n)
  have ab: "keyAt a i \<le> keyAt b i"
    using Suc.prems(1) by (subst (asm) compareNonDigitsFrom_step) (simp split: if_splits)
  have bc: "keyAt b i \<le> keyAt c i"
    using Suc.prems(2) by (subst (asm) compareNonDigitsFrom_step) (simp split: if_splits)
  show ?case
  proof (cases "keyAt a i = keyAt c i")
    case False
    with ab bc show ?thesis
      by (subst compareNonDigitsFrom_step) simp
  next
    case True
    with ab bc have eq: "keyAt a i = keyAt b i" "keyAt b i = keyAt c i"
      by simp_all
    have "compareNonDigitsFrom (i + 1) a b \<le> 0"
      using Suc.prems(1) eq by (subst (asm) compareNonDigitsFrom_step) simp
    moreover have "compareNonDigitsFrom (i + 1) b c \<le> 0"
      using Suc.prems(2) eq by (subst (asm) compareNonDigitsFrom_step) simp
    moreover have "n = max (length a) (max (length b) (length c)) - (i + 1)"
      using Suc.hyps(2) by simp
    ultimately have "compareNonDigitsFrom (i + 1) a c \<le> 0"
      by (rule Suc.hyps(1) [rotated])
    with True show ?thesis
      by (subst compareNonDigitsFrom_step) simp
  qed
qed

lemma isComparator_compareNonDigits: "isComparator compareNonDigits"
proof (rule isComparatorI)
  fix x show "compareNonDigits x x = 0"
    by (simp add: compareNonDigits_def compareNonDigitsFrom_refl)
next
  fix x y show "compareNonDigits y x = - compareNonDigits x y"
    unfolding compareNonDigits_def by (rule compareNonDigitsFrom_flip)
next
  fix x y z
  assume "compareNonDigits x y \<le> 0" "compareNonDigits y z \<le> 0"
  then show "compareNonDigits x z \<le> 0"
    unfolding compareNonDigits_def by (rule compareNonDigitsFrom_trans)
qed

lemma isComparator_compareDigits: "isComparator compareDigits"
proof -
  have "compareDigits = (\<lambda>x y. if digitsValue x < digitsValue y then - 1
                               else if digitsValue x > digitsValue y then 1 else 0)"
    by (auto simp: compareDigits_def fun_eq_iff)
  then show ?thesis
    using isComparator_key [of digitsValue] by simp
qed

lemma isComparator_compareBlock: "isComparator compareBlock"
  unfolding compareBlock_def
proof (rule isComparator_lex)
  show "isComparator (\<lambda>a b. compareNonDigits (fst (extractNonDigits a)) (fst (extractNonDigits b)))"
    by (rule isComparator_on [OF isComparator_compareNonDigits,
          where f = "\<lambda>a. fst (extractNonDigits a)"])
  show "isComparator (\<lambda>a b. compareDigits (fst (extractDigits (snd (extractNonDigits a))))
                                   (fst (extractDigits (snd (extractNonDigits b)))))"
    by (rule isComparator_on [OF isComparator_compareDigits,
          where f = "\<lambda>a. fst (extractDigits (snd (extractNonDigits a)))"])
qed

lemma nextRest_Nil: "nextRest [] = []"
  by (simp add: nextRest_def extractDigits_def extractNonDigits_def)

lemma nextRest_le: "length (nextRest a) \<le> length a"
  by (simp add: nextRest_def extractDigits_def extractNonDigits_def rest_le)

lemma nextRest_lt: "a \<noteq> [] \<Longrightarrow> length (nextRest a) < length a"
  by (simp add: nextRest_def extractDigits_def extractNonDigits_def rest_lt)

lemma compareVersionPart_Nil: "compareVersionPart [] [] = 0"
  by (subst compareVersionPart.simps) simp

lemma compareVersionPart_step:
  "compareVersionPart a b =
     (if compareBlock a b \<noteq> 0 then compareBlock a b
      else compareVersionPart (nextRest a) (nextRest b))"
proof (cases "a = [] \<and> b = []")
  case True
  then show ?thesis
    by (simp add: compareVersionPart_Nil nextRest_Nil comparator_refl [OF isComparator_compareBlock])
next
  case False
  then show ?thesis
    by (subst compareVersionPart.simps)
      (auto simp: compareBlock_def lexComparator_def nextRest_def Let_def)
qed

lemma compareVersionPart_refl: "compareVersionPart a a = 0"
proof (induction a rule: length_induct)
  case (1 a)
  show ?case
  proof (cases "a = []")
    case True
    then show ?thesis by (simp add: compareVersionPart_Nil)
  next
    case False
    then have "compareVersionPart (nextRest a) (nextRest a) = 0"
      using 1 nextRest_lt by blast
    then show ?thesis
      by (subst compareVersionPart_step)
        (simp add: comparator_refl [OF isComparator_compareBlock])
  qed
qed

lemma compareVersionPart_flip: "compareVersionPart b a = - compareVersionPart a b"
proof (induction "length a + length b" arbitrary: a b rule: less_induct)
  case less
  show ?case
  proof (cases "a = [] \<and> b = []")
    case True
    then show ?thesis by (simp add: compareVersionPart_Nil)
  next
    case False
    then have "length (nextRest a) + length (nextRest b) < length a + length b"
      using nextRest_le [of a] nextRest_le [of b] nextRest_lt [of a] nextRest_lt [of b]
      by (cases "a = []") auto
    then have "compareVersionPart (nextRest b) (nextRest a)
               = - compareVersionPart (nextRest a) (nextRest b)"
      by (rule less)
    then show ?thesis
      using comparator_flip [OF isComparator_compareBlock, of b a]
      by (subst compareVersionPart_step, subst (2) compareVersionPart_step) simp
  qed
qed

lemma compareVersionPart_trans:
  "compareVersionPart a b \<le> 0 \<Longrightarrow> compareVersionPart b c \<le> 0
   \<Longrightarrow> compareVersionPart a c \<le> 0"
proof (induction "length a + length b + length c" arbitrary: a b c rule: less_induct)
  case less
  note cb = isComparator_compareBlock
  show ?case
  proof (cases "a = [] \<and> b = [] \<and> c = []")
    case True
    then show ?thesis by (simp add: compareVersionPart_Nil)
  next
    case False
    then have smaller: "length (nextRest a) + length (nextRest b) + length (nextRest c)
                        < length a + length b + length c"
      using nextRest_le [of a] nextRest_le [of b] nextRest_le [of c]
        nextRest_lt [of a] nextRest_lt [of b] nextRest_lt [of c]
      by (cases "a = []"; cases "b = []") auto
    have ab: "compareBlock a b \<le> 0"
      using less.prems(1) by (subst (asm) compareVersionPart_step) (simp split: if_splits)
    have bc: "compareBlock b c \<le> 0"
      using less.prems(2) by (subst (asm) compareVersionPart_step) (simp split: if_splits)
    consider "compareBlock a b < 0" | "compareBlock a b = 0" "compareBlock b c < 0"
      | "compareBlock a b = 0" "compareBlock b c = 0"
      using ab bc by linarith
    then show ?thesis
    proof cases
      case 1
      then have "compareBlock a c < 0"
        using bc by (rule comparator_trans_less1 [OF cb])
      then show ?thesis
        by (subst compareVersionPart_step) simp
    next
      case 2
      then have "compareBlock a c < 0"
        using comparator_trans_less2 [OF cb, of a b c] by simp
      then show ?thesis
        by (subst compareVersionPart_step) simp
    next
      case 3
      then have ac: "compareBlock a c = 0"
        by (rule comparator_trans_eq [OF cb])
      have "compareVersionPart (nextRest a) (nextRest b) \<le> 0"
        using less.prems(1) 3 by (subst (asm) compareVersionPart_step) simp
      moreover have "compareVersionPart (nextRest b) (nextRest c) \<le> 0"
        using less.prems(2) 3 by (subst (asm) compareVersionPart_step) simp
      ultimately have "compareVersionPart (nextRest a) (nextRest c) \<le> 0"
        by (rule less.hyps [OF smaller])
      with ac show ?thesis
        by (subst compareVersionPart_step) simp
    qed
  qed
qed

lemma isComparator_compareVersionPart: "isComparator compareVersionPart"
proof (rule isComparatorI)
  fix x show "compareVersionPart x x = 0"
    by (rule compareVersionPart_refl)
next
  fix x y show "compareVersionPart y x = - compareVersionPart x y"
    by (rule compareVersionPart_flip)
next
  fix x y z
  assume "compareVersionPart x y \<le> 0" "compareVersionPart y z \<le> 0"
  then show "compareVersionPart x z \<le> 0"
    by (rule compareVersionPart_trans)
qed

lemma Compare_lex:
  "Compare =
     lexComparator
       (\<lambda>a b. if fst (ParseVersion a) < fst (ParseVersion b) then - 1
              else if fst (ParseVersion a) > fst (ParseVersion b) then 1 else 0)
       (lexComparator
         (\<lambda>a b. compareVersionPart (fst (snd (ParseVersion a))) (fst (snd (ParseVersion b))))
         (\<lambda>a b. compareVersionPart (snd (snd (ParseVersion a))) (snd (snd (ParseVersion b)))))"
  by (auto simp: Compare_def lexComparator_def Let_def fun_eq_iff)

lemma isComparator_Compare: "isComparator Compare"
  unfolding Compare_lex
proof (intro isComparator_lex)
  show "isComparator (\<lambda>a b. if fst (ParseVersion a) < fst (ParseVersion b) then - 1
                            else if fst (ParseVersion a) > fst (ParseVersion b) then 1 else 0)"
    by (rule isComparator_key [of "\<lambda>a. fst (ParseVersion a)"])
  show "isComparator (\<lambda>a b. compareVersionPart (fst (snd (ParseVersion a)))
                                       (fst (snd (ParseVersion b))))"
    by (rule isComparator_on [OF isComparator_compareVersionPart,
          where f = "\<lambda>a. fst (snd (ParseVersion a))"])
  show "isComparator (\<lambda>a b. compareVersionPart (snd (snd (ParseVersion a)))
                                       (snd (snd (ParseVersion b))))"
    by (rule isComparator_on [OF isComparator_compareVersionPart,
          where f = "\<lambda>a. snd (snd (ParseVersion a))"])
qed

text \<open>
  Claim C4. \<open>Compare\<close> is a total preorder given as a three-way comparison: every
  version string compares equal to itself, swapping the arguments negates the result,
  and if \<open>a\<close> is not greater than \<open>b\<close> and \<open>b\<close> not greater than \<open>c\<close> then \<open>a\<close> is
  not greater than \<open>c\<close>. This holds for all byte strings, not only for well-formed
  versions.
\<close>

theorem Compare_total_preorder:
  "Compare a a = 0 \<and> Compare a b = - Compare b a
   \<and> (Compare a b \<le> 0 \<and> Compare b c \<le> 0 \<longrightarrow> Compare a c \<le> 0)"
  using comparator_refl [OF isComparator_Compare, of a]
    comparator_flip [OF isComparator_Compare, of a b]
    comparator_trans [OF isComparator_Compare, of a b c]
  by blast

theorem Compare_total_preorder_witness:
  "Compare ''1.0'' ''1.0'' = 0 \<and> Compare ''1.0'' ''1.5'' = - Compare ''1.5'' ''1.0''
   \<and> Compare ''1.0'' ''1.5'' \<le> 0 \<and> Compare ''1.5'' ''2.0'' \<le> 0 \<and> Compare ''1.0'' ''2.0'' \<le> 0"
proof -
  have "Compare ''1.0'' ''1.5'' \<le> 0" by code_simp
  moreover have "Compare ''1.5'' ''2.0'' \<le> 0" by code_simp
  ultimately show ?thesis
    using Compare_total_preorder [of "''1.0''" "''1.5''" "''2.0''"] by simp
qed

text \<open>
  Claim C5. \<open>Compare("1.0.0", "1.0")\<close> is 1. Once the common prefix \<open>1.0\<close> has been
  consumed, the non-digit run \<open>.\<close> of the longer string meets the exhausted shorter
  string; the dot ranks 46 + 256, the missing byte ranks 0.
\<close>

theorem Compare_trailing_zero_component:
  "Compare ''1.0.0'' ''1.0'' = 1
   \<and> compareVersionPart ''.0'' [] = 1
   \<and> compareNonDigits ''.'' [] = 1
   \<and> charOrder (CHR ''.'') = 302"
proof -
  have "Compare ''1.0.0'' ''1.0'' = 1" by code_simp
  moreover have "compareVersionPart ''.0'' [] = 1" by code_simp
  moreover have "compareNonDigits ''.'' [] = 1" by code_simp
  moreover have "charOrder (CHR ''.'') = 302" by code_simp
  ultimately show ?thesis by blast
qed

text \<open>
  Claim C3 asks \<open>compareDigits\<close> to compare digit runs by their exact value, whatever
  their length. The code converts each run with \<open>ParseInt\<close> and drops the error, so
  every run worth more than 2^63 - 1 is read as 2^63 - 1: the runs
  9223372036854775808 and 9223372036854775807 compare equal, and so do the versions
  built from them.
\<close>

theorem compareDigits_saturates:
  "compareDigits ''9223372036854775808'' ''9223372036854775807'' = 0
   \<and> digitsValue ''9223372036854775808'' = 9223372036854775807
   \<and> Compare ''9223372036854775808'' ''9223372036854775807'' = 0"
proof -
  have "compareDigits ''9223372036854775808'' ''9223372036854775807'' = 0" by code_simp
  moreover have "digitsValue ''9223372036854775808'' = 9223372036854775807" by code_simp
  moreover have "Compare ''9223372036854775808'' ''9223372036854775807'' = 0" by code_simp
  ultimately show ?thesis by blast
qed

section \<open>Properties of ParseVersion\<close>

text \<open>
  Claim C2 asks \<open>ParseVersion\<close> to split the part after the epoch at its last hyphen,
  as Debian does: in \<open>1.0-2-3\<close> the upstream version is \<open>1.0-2\<close> and the revision is
  \<open>3\<close>. The expression \<open>[^-]+\<close> that \<open>versionRegex\<close> has for the upstream version
  cannot cross a hyphen, so the code splits at the first one, and \<open>Compare\<close> ranks
  \<open>1.0-2-3\<close> below \<open>1.0-3\<close>, where the upstream version \<open>1.0-2\<close> is the later one.
  With a single hyphen the two splits agree.
\<close>

theorem ParseVersion_splits_at_first_hyphen:
  "ParseVersion ''1.0-2-3'' = (0, ''1.0'', ''2-3'')
   \<and> ParseVersion ''1.0-2-3'' \<noteq> (0, ''1.0-2'', ''3'')
   \<and> Compare ''1.0-2-3'' ''1.0-3'' = - 1
   \<and> compareVersionPart ''1.0-2'' ''1.0'' = 1
   \<and> ParseVersion ''2:1.0.0-ubuntu1'' = (2, ''1.0.0'', ''ubuntu1'')"
proof -
  have "ParseVersion ''1.0-2-3'' = (0, ''1.0'', ''2-3'')" by code_simp
  moreover have "Compare ''1.0-2-3'' ''1.0-3'' = - 1" by code_simp
  moreover have "compareVersionPart ''1.0-2'' ''1.0'' = 1" by code_simp
  moreover have "ParseVersion ''2:1.0.0-ubuntu1'' = (2, ''1.0.0'', ''ubuntu1'')" by code_simp
  ultimately show ?thesis by simp
qed

section \<open>Properties of PoolPath\<close>

lemma splitSlash_ne: "splitSlash s \<noteq> []"
  by (induction s) (auto split: list.splits)

lemma splitSlash_plain: "CHR ''/'' \<notin> set a \<Longrightarrow> splitSlash a = [a]"
  by (induction a) auto

lemma splitSlash_append: "CHR ''/'' \<notin> set a \<Longrightarrow> splitSlash (a @ CHR ''/'' # b) = a # splitSlash b"
  by (induction a) auto

lemma splitSlash_joinSlash:
  "es \<noteq> [] \<Longrightarrow> \<forall>e\<in>set es. CHR ''/'' \<notin> set e \<Longrightarrow> splitSlash (joinSlash es) = es"
proof (induction es)
  case Nil
  then show ?case by simp
next
  case (Cons e es)
  show ?case
  proof (cases es)
    case Nil
    with Cons.prems show ?thesis by (simp add: joinSlash_def splitSlash_plain)
  next
    case (Cons e' es')
    then have "joinSlash (e # es) = e @ CHR ''/'' # joinSlash es"
      by (simp add: joinSlash_def)
    moreover have "splitSlash (joinSlash es) = es"
      using Cons.IH Cons.prems Cons by simp
    ultimately show ?thesis
      using Cons.prems by (simp add: splitSlash_append)
  qed
qed

lemma cleanElems_plain:
  "\<forall>e\<in>set es. plainElem e \<Longrightarrow> cleanElems rooted out es = out @ es"
  by (induction es arbitrary: out) (auto simp: plainElem_def)

lemma Clean_joinSlash:
  assumes "es \<noteq> []" "\<forall>e\<in>set es. plainElem e"
  shows "Clean (joinSlash es) = joinSlash es"
proof -
  obtain e r where es: "es = e # r"
    using assms(1) by (cases es) auto
  then have e: "e \<noteq> []" "hd e \<noteq> CHR ''/''"
    using assms(2) by (cases e; auto simp: plainElem_def)+
  then have "joinSlash es \<noteq> []" "hd (joinSlash es) = hd e"
    using es by (auto simp: joinSlash_def)
  moreover have "splitSlash (joinSlash es) = es"
    using assms by (intro splitSlash_joinSlash) (auto simp: plainElem_def)
  ultimately show ?thesis
    using assms e by (simp add: Clean_def cleanElems_plain)
qed

lemma plainElem_name:
  assumes "name \<noteq> []" "hd name \<noteq> CHR ''.''" "CHR ''/'' \<notin> set name"
  shows "plainElem name" "plainElem (take 1 name)" "3 < length name \<Longrightarrow> plainElem (take 4 name)"
proof -
  obtain c cs where n: "name = c # cs"
    using assms(1) by (cases name) auto
  show "plainElem name"
    using assms n by (auto simp: plainElem_def)
  show "plainElem (take 1 name)"
    using assms n by (auto simp: plainElem_def)
  show "plainElem (take 4 name)" if "3 < length name"
  proof -
    have four: "xs \<noteq> ''.'' \<and> xs \<noteq> ''..'' \<and> xs \<noteq> []" if "length xs = 4" for xs :: string
      using that by auto
    have "length (take 4 name) = 4"
      using \<open>3 < length name\<close> by simp
    then have "take 4 name \<noteq> ''.'' \<and> take 4 name \<noteq> ''..'' \<and> take 4 name \<noteq> []"
      by (rule four)
    moreover have "CHR ''/'' \<notin> set (take 4 name)"
      using assms(3) by (meson in_set_takeD)
    ultimately show ?thesis
      unfolding plainElem_def by blast
  qed
qed

lemma joinSlash_Cons: "es \<noteq> [] \<Longrightarrow> joinSlash (e # es) = e @ CHR ''/'' # joinSlash es"
  by (cases es) (simp_all add: joinSlash_def)

lemma joinSlash_splitSlash: "joinSlash (splitSlash s) = s"
proof (induction s)
  case Nil
  show ?case by (simp add: joinSlash_def)
next
  case (Cons c cs)
  show ?case
  proof (cases "c = CHR ''/''")
    case True
    then show ?thesis
      using Cons by (simp add: joinSlash_Cons splitSlash_ne)
  next
    case False
    obtain x xs where sp: "splitSlash cs = x # xs"
      using splitSlash_ne [of cs] by (cases "splitSlash cs") auto
    have "joinSlash ((c # x) # xs) = c # joinSlash (x # xs)"
      by (simp add: joinSlash_def)
    then show ?thesis
      using False sp Cons by simp
  qed
qed

lemma splitSlash_no_slash: "e \<in> set (splitSlash s) \<Longrightarrow> CHR ''/'' \<notin> set e"
proof (induction s arbitrary: e)
  case Nil
  then show ?case by simp
next
  case (Cons c cs)
  obtain x xs where sp: "splitSlash cs = x # xs"
    using splitSlash_ne [of cs] by (cases "splitSlash cs") auto
  have "CHR ''/'' \<notin> set x" "\<And>y. y \<in> set xs \<Longrightarrow> CHR ''/'' \<notin> set y"
    using Cons.IH sp by auto
  then show ?case
    using Cons.prems sp by (auto split: if_splits)
qed

lemma cleanElems_length: "length (cleanElems rooted out es) \<le> length out + length es"
  by (induction rooted out es rule: cleanElems.induct) (auto simp: le_SucI)

lemma cleanElems_no_slash:
  assumes "\<forall>e\<in>set out. CHR ''/'' \<notin> set e" "\<forall>e\<in>set es. CHR ''/'' \<notin> set e"
  shows "\<forall>e\<in>set (cleanElems rooted out es). CHR ''/'' \<notin> set e"
  using assms
proof (induction es arbitrary: out)
  case Nil
  then show ?case by simp
next
  case (Cons e es)
  have b: "\<forall>e\<in>set (butlast out). CHR ''/'' \<notin> set e"
    using Cons.prems(1) by (meson in_set_butlastD)
  have a: "\<forall>x\<in>set (out @ [e]). CHR ''/'' \<notin> set x"
    using Cons.prems by simp
  have c: "\<forall>x\<in>set es. CHR ''/'' \<notin> set x"
    using Cons.prems by simp
  show ?case
    using Cons.IH [OF b c] Cons.IH [OF a c] Cons.IH [OF Cons.prems(1) c] by simp
qed

lemma cleanElems_fixed:
  assumes "cleanElems rooted out es = out @ es" "out \<noteq> []" "last out \<noteq> ''..''"
    and "\<forall>e\<in>set es. CHR ''/'' \<notin> set e"
  shows "\<forall>e\<in>set es. plainElem e"
  using assms
proof (induction es arbitrary: out)
  case Nil
  show ?case by simp
next
  case (Cons e es)
  show ?case
  proof (cases "e = [] \<or> e = ''.''")
    case True
    then have "cleanElems rooted out es = out @ e # es"
      using Cons.prems(1) by auto
    then have "length (out @ e # es) \<le> length out + length es"
      using cleanElems_length [of rooted out es] by simp
    then show ?thesis by simp
  next
    case False
    show ?thesis
    proof (cases "e = ''..''")
      case True
      then have "cleanElems rooted (butlast out) es = out @ e # es"
        using Cons.prems(1-3) by simp
      then have "length (out @ e # es) \<le> length (butlast out) + length es"
        using cleanElems_length [of rooted "butlast out" es] by simp
      then show ?thesis by simp
    next
      case dd: False
      then have "cleanElems rooted (out @ [e]) es = (out @ [e]) @ es"
        using False Cons.prems(1) by simp
      then have "\<forall>x\<in>set es. plainElem x"
        using Cons.IH [of "out @ [e]"] dd Cons.prems(4) by simp
      moreover have "plainElem e"
        using False dd Cons.prems(4) by (simp add: plainElem_def)
      ultimately show ?thesis by simp
    qed
  qed
qed

lemma splitSlash_poolPathFormat:
  "splitSlash (poolPathFormat name filename)
     = ''pool'' # splitSlash (''main/'' @ poolPrefix name @ ''/'' @ name @ ''/'' @ filename)"
proof -
  have "CHR ''/'' \<notin> set ''pool''" by simp
  from splitSlash_append [OF this, of "''main/'' @ poolPrefix name @ ''/'' @ name @ ''/'' @ filename"]
  show ?thesis
    by (simp add: poolPathFormat_def)
qed

lemma Clean_poolPathFormat_fixed:
  "Clean (poolPathFormat name filename) = poolPathFormat name filename
     \<longleftrightarrow> (\<forall>e\<in>set (splitSlash (poolPathFormat name filename)). plainElem e)"
proof
  let ?s = "poolPathFormat name filename"
  let ?rest = "splitSlash (''main/'' @ poolPrefix name @ ''/'' @ name @ ''/'' @ filename)"
  let ?out = "cleanElems False [] (splitSlash ?s)"
  have s: "?s \<noteq> []" "hd ?s = CHR ''p''"
    by (simp_all add: poolPathFormat_def)
  have cl: "Clean ?s = (if ?out = [] then ''.'' else joinSlash ?out)"
    using s by (simp add: Clean_def Let_def)
  {
    assume fixed: "Clean ?s = ?s"
    have "?out \<noteq> []"
    proof
      assume "?out = []"
      with cl fixed have "?s = ''.''" by simp
      with s(2) show False by simp
    qed
    with cl fixed have j: "joinSlash ?out = ?s" by simp
    have "\<forall>e\<in>set ?out. CHR ''/'' \<notin> set e"
      by (rule cleanElems_no_slash) (simp_all add: splitSlash_no_slash)
    with \<open>?out \<noteq> []\<close> have "splitSlash (joinSlash ?out) = ?out"
      by (rule splitSlash_joinSlash)
    with j have "?out = splitSlash ?s" by simp
    then have "cleanElems False [''pool''] ?rest = [''pool''] @ ?rest"
      by (simp add: splitSlash_poolPathFormat)
    then have "\<forall>e\<in>set ?rest. plainElem e"
      by (rule cleanElems_fixed) (simp_all add: splitSlash_no_slash)
    then show "\<forall>e\<in>set (splitSlash ?s). plainElem e"
      by (simp add: splitSlash_poolPathFormat plainElem_def)
  }
  {
    assume "\<forall>e\<in>set (splitSlash ?s). plainElem e"
    with splitSlash_ne [of ?s] have "Clean (joinSlash (splitSlash ?s)) = joinSlash (splitSlash ?s)"
      by (rule Clean_joinSlash)
    then show "Clean ?s = ?s"
      by (simp add: joinSlash_splitSlash)
  }
qed

lemma PoolPath_Clean:
  assumes "Name p \<noteq> []"
  shows "PoolPath p filename = Some (Clean (poolPathFormat (Name p) filename))"
proof -
  have "joinSlash [''pool'', ''main'', pre, Name p, filename]
          = ''pool/main/'' @ pre @ ''/'' @ Name p @ ''/'' @ filename" for pre
    by (simp add: joinSlash_def)
  then show ?thesis
    using assms by (auto simp: PoolPath_def Join_def poolPathFormat_def poolPrefix_def)
qed

lemma poolPathFormat_plain:
  assumes "name \<noteq> []" "hd name \<noteq> CHR ''.''" "CHR ''/'' \<notin> set name" "plainElem filename"
  shows "\<forall>e\<in>set (splitSlash (poolPathFormat name filename)). plainElem e"
proof -
  note pl = plainElem_name [OF assms(1-3)]
  have pre: "plainElem (poolPrefix name)"
    using pl by (simp add: poolPrefix_def)
  have m: "CHR ''/'' \<notin> set ''main''" by simp
  have "splitSlash (poolPrefix name @ CHR ''/'' # name @ CHR ''/'' # filename)
          = [poolPrefix name, name, filename]"
    using pre pl(1) assms(4) by (simp add: splitSlash_append splitSlash_plain plainElem_def)
  moreover have "splitSlash (''main/'' @ poolPrefix name @ ''/'' @ name @ ''/'' @ filename)
          = ''main'' # splitSlash (poolPrefix name @ CHR ''/'' # name @ CHR ''/'' # filename)"
    using splitSlash_append [OF m, of "poolPrefix name @ CHR ''/'' # name @ CHR ''/'' # filename"]
    by simp
  ultimately have "splitSlash (poolPathFormat name filename)
          = [''pool'', ''main'', poolPrefix name, name, filename]"
    by (simp only: splitSlash_poolPathFormat)
  moreover have "plainElem ''pool''" "plainElem ''main''"
    by (simp_all add: plainElem_def)
  ultimately show ?thesis
    using pre pl(1) assms(4) by simp
qed

text \<open>
  Claim C8, amended. For a non-empty package name, \<open>PoolPath\<close> returns what
  \<open>filepath.Clean\<close> makes of \<open>pool/main/<prefix>/<name>/<filename>\<close>, the prefix being
  the first four bytes of a name that starts with \<open>lib\<close> and is longer than three
  bytes, and the first byte otherwise: \<open>m\<close> for \<open>myapp\<close>, \<open>libf\<close> for \<open>libfoo\<close>, \<open>l\<close> for
  \<open>lib\<close>. The result is that path itself exactly when none of the path's elements
  between slashes is empty, \<open>.\<close> or \<open>..\<close>; this is so whenever the name has no slash
  and does not start with a dot and the file name is a plain path element.
\<close>

theorem PoolPath_clean_format:
  assumes "Name p \<noteq> []"
  shows "PoolPath p filename = Some (Clean (poolPathFormat (Name p) filename))
         \<and> (PoolPath p filename = Some (poolPathFormat (Name p) filename)
              \<longleftrightarrow> (\<forall>e\<in>set (splitSlash (poolPathFormat (Name p) filename)). plainElem e))
         \<and> (hd (Name p) \<noteq> CHR ''.'' \<and> CHR ''/'' \<notin> set (Name p) \<and> plainElem filename
              \<longrightarrow> PoolPath p filename = Some (poolPathFormat (Name p) filename))
         \<and> poolPathFormat (Name p) filename
             = ''pool/main/'' @ poolPrefix (Name p) @ ''/'' @ Name p @ ''/'' @ filename
         \<and> poolPrefix (Name p)
             = (if HasPrefix (Name p) ''lib'' \<and> length (Name p) > 3 then take 4 (Name p)
                else take 1 (Name p))
         \<and> poolPrefix ''myapp'' = ''m'' \<and> poolPrefix ''libfoo'' = ''libf''
         \<and> poolPrefix ''lib'' = ''l''"
proof -
  note c = PoolPath_Clean [OF assms, of filename]
  have iff: "PoolPath p filename = Some (poolPathFormat (Name p) filename)
               \<longleftrightarrow> (\<forall>e\<in>set (splitSlash (poolPathFormat (Name p) filename)). plainElem e)"
    using c Clean_poolPathFormat_fixed [of "Name p" filename] by simp
  have "PoolPath p filename = Some (poolPathFormat (Name p) filename)"
    if "hd (Name p) \<noteq> CHR ''.'' \<and> CHR ''/'' \<notin> set (Name p) \<and> plainElem filename"
    using iff poolPathFormat_plain [OF assms, of filename] that by blast
  then have plain: "hd (Name p) \<noteq> CHR ''.'' \<and> CHR ''/'' \<notin> set (Name p) \<and> plainElem filename
              \<longrightarrow> PoolPath p filename = Some (poolPathFormat (Name p) filename)"
    by blast
  have fmt: "poolPathFormat (Name p) filename
             = ''pool/main/'' @ poolPrefix (Name p) @ ''/'' @ Name p @ ''/'' @ filename"
    by (rule poolPathFormat_def)
  have pre: "poolPrefix (Name p)
             = (if HasPrefix (Name p) ''lib'' \<and> length (Name p) > 3 then take 4 (Name p)
                else take 1 (Name p))"
    by (rule poolPrefix_def)
  have e1: "poolPrefix ''myapp'' = ''m''" by code_simp
  have e2: "poolPrefix ''libfoo'' = ''libf''" by code_simp
  have e3: "poolPrefix ''lib'' = ''l''" by code_simp
  from c iff plain fmt pre e1 e2 e3 show ?thesis
    by (intro conjI)
qed

theorem PoolPath_clean_format_witness:
  "PoolPath (emptyPackage\<lparr>Name := ''libfoo''\<rparr>) ''libfoo_1.0.0_amd64.deb''
     = Some ''pool/main/libf/libfoo/libfoo_1.0.0_amd64.deb''
   \<and> PoolPath (emptyPackage\<lparr>Name := ''lib''\<rparr>) ''a/../lib_1.0_all.deb''
     = Some ''pool/main/l/lib/lib_1.0_all.deb''"
proof -
  let ?foo = "emptyPackage\<lparr>Name := ''libfoo''\<rparr>"
  let ?lib = "emptyPackage\<lparr>Name := ''lib''\<rparr>"
  have nfoo: "Name ?foo = ''libfoo''" and nlib: "Name ?lib = ''lib''"
    by simp_all
  have n: "Name ?foo \<noteq> []" "Name ?lib \<noteq> []"
    by simp_all
  have h: "hd ''libfoo'' \<noteq> CHR ''.''" "CHR ''/'' \<notin> set ''libfoo''"
    "plainElem ''libfoo_1.0.0_amd64.deb''"
    by code_simp+
  have p: "poolPathFormat ''libfoo'' ''libfoo_1.0.0_amd64.deb''
             = ''pool/main/libf/libfoo/libfoo_1.0.0_amd64.deb''"
    by code_simp
  have c: "Clean (poolPathFormat ''lib'' ''a/../lib_1.0_all.deb'')
             = ''pool/main/l/lib/lib_1.0_all.deb''"
    by code_simp
  have "PoolPath ?foo ''libfoo_1.0.0_amd64.deb''
          = Some (poolPathFormat ''libfoo'' ''libfoo_1.0.0_amd64.deb'')"
    using PoolPath_clean_format [OF n(1), of "''libfoo_1.0.0_amd64.deb''", unfolded nfoo] h
    by blast
  moreover have "PoolPath ?lib ''a/../lib_1.0_all.deb''
          = Some (Clean (poolPathFormat ''lib'' ''a/../lib_1.0_all.deb''))"
    using PoolPath_clean_format [OF n(2), of "''a/../lib_1.0_all.deb''", unfolded nlib]
    by blast
  ultimately show ?thesis
    unfolding p c by blast
qed

text \<open>
  Claim C8 as stated, for every non-empty name, fails: \<open>filepath.Join\<close> cleans the
  path, so the prefix directory \<open>.\<close> of a name that starts with a dot disappears.
\<close>

theorem PoolPath_cleaned_counterexample:
  "PoolPath (emptyPackage\<lparr>Name := ''.x''\<rparr>) ''f.deb'' = Some ''pool/main/.x/f.deb''
   \<and> PoolPath (emptyPackage\<lparr>Name := ''.x''\<rparr>) ''f.deb'' \<noteq> Some ''pool/main/./.x/f.deb''"
proof -
  have "PoolPath (emptyPackage\<lparr>Name := ''.x''\<rparr>) ''f.deb'' = Some ''pool/main/.x/f.deb''"
    by code_simp
  then show ?thesis by simp
qed

section \<open>Properties of extractControl\<close>

lemma zst_not_gz_xz:
  assumes "HasSuffix s ''.zst''"
  shows "\<not> HasSuffix s ''.gz''" "\<not> HasSuffix s ''.xz''"
proof -
  from assms have len: "4 \<le> length s" and d: "drop (length s - 4) s = ''.zst''"
    by (simp_all add: HasSuffix_def eval_nat_numeral)
  have "length s - 3 = 1 + (length s - 4)"
    using len by simp
  then have "drop (length s - 3) s = drop 1 (drop (length s - 4) s)"
    by (simp only: drop_drop)
  with d have "drop (length s - 3) s = ''zst''"
    by simp
  then show "\<not> HasSuffix s ''.gz''" "\<not> HasSuffix s ''.xz''"
    by (simp_all add: HasSuffix_def eval_nat_numeral)
qed

text \<open>
  Claim C9, amended. For an archive member whose name ends in \<open>.zst\<close>, extraction
  always fails and never returns control data. When reading the payload fails, the
  error is that of the read behind the prefix \<open>read zst data\<close>; when creating, writing
  or closing the temporary file fails, the error of that step is returned as it is;
  and when the payload was read and staged, the error is the message
  \<open>xz/zstd decompression not implemented - use gzip\<close>, which is neither an error of the
  operating system on a path nor an error of a stream.
\<close>

theorem extractControl_zst_fails:
  assumes "HasSuffix archiveName ''.zst''"
  shows "(\<exists>err. extractControl io archiveName = Inl err)
         \<and> (\<forall>err. readAll io = Inl err
              \<longrightarrow> extractControl io archiveName = Inl (WrapError ''read zst data'' err))
         \<and> (\<forall>data err. readAll io = Inr data \<and> createTemp io = Inl err
              \<longrightarrow> extractControl io archiveName = Inl err)
         \<and> (\<forall>data tmpName err. readAll io = Inr data \<and> createTemp io = Inr tmpName
                \<and> writeTemp io = Some err
              \<longrightarrow> extractControl io archiveName = Inl err)
         \<and> (\<forall>data tmpName err. readAll io = Inr data \<and> createTemp io = Inr tmpName
                \<and> writeTemp io = None \<and> closeTemp io = Some err
              \<longrightarrow> extractControl io archiveName = Inl err)
         \<and> (\<forall>data tmpName. readAll io = Inr data \<and> createTemp io = Inr tmpName
                \<and> writeTemp io = None \<and> closeTemp io = None
              \<longrightarrow> extractControl io archiveName
                    = Inl (ErrorString ''xz/zstd decompression not implemented - use gzip'')
                  \<and> (\<forall>op path e. extractControl io archiveName \<noteq> Inl (PathError op path e))
                  \<and> (\<forall>m. extractControl io archiveName \<noteq> Inl (StreamError m)))"
  using assms zst_not_gz_xz [OF assms]
  by (auto simp: extractControl_def extractControlFromZstd_def extractControlWithCmd_def
      split: sum.splits option.splits)

theorem extractControl_zst_fails_witness:
  "extractControl \<lparr>readAll = Inr ''payload'', gzipTar = Inr [], plainTar = [],
                    createTemp = Inr ''/tmp/control.tar.zst1'', writeTemp = None,
                    closeTemp = None\<rparr> ''control.tar.zst''
     = Inl (ErrorString ''xz/zstd decompression not implemented - use gzip'')
   \<and> extractControl \<lparr>readAll = Inr ''payload'', gzipTar = Inr [], plainTar = [],
                    createTemp = Inr ''/tmp/control.tar.zst1'', writeTemp = None,
                    closeTemp = Some (PathError ''close'' ''/tmp/control.tar.zst1'' ENOSPC)\<rparr>
        ''control.tar.zst''
     = Inl (PathError ''close'' ''/tmp/control.tar.zst1'' ENOSPC)
   \<and> extractControl \<lparr>readAll = Inl (StreamError ''unexpected EOF''), gzipTar = Inr [],
                    plainTar = [], createTemp = Inr ''/tmp/control.tar.zst1'', writeTemp = None,
                    closeTemp = None\<rparr> ''control.tar.zst''
     = Inl (WrapError ''read zst data'' (StreamError ''unexpected EOF''))"
proof -
  have z: "HasSuffix ''control.tar.zst'' ''.zst''" by code_simp
  let ?staged = "\<lparr>readAll = Inr ''payload'', gzipTar = Inr [], plainTar = [],
                    createTemp = Inr ''/tmp/control.tar.zst1'', writeTemp = None,
                    closeTemp = None\<rparr>"
  let ?full = "\<lparr>readAll = Inr ''payload'', gzipTar = Inr [], plainTar = [],
                    createTemp = Inr ''/tmp/control.tar.zst1'', writeTemp = None,
                    closeTemp = Some (PathError ''close'' ''/tmp/control.tar.zst1'' ENOSPC)\<rparr>"
  let ?short = "\<lparr>readAll = Inl (StreamError ''unexpected EOF''), gzipTar = Inr [],
                    plainTar = [], createTemp = Inr ''/tmp/control.tar.zst1'', writeTemp = None,
                    closeTemp = None\<rparr>"
  from extractControl_zst_fails [OF z, of ?staged] extractControl_zst_fails [OF z, of ?full]
    extractControl_zst_fails [OF z, of ?short]
  show ?thesis by simp
qed

text \<open>
  Claim C9 as stated promises the unsupported-compression error for every such
  archive. Where the temporary file cannot be created (a read-only temporary
  directory), the caller gets that error of the operating system.
\<close>

theorem extractControl_zst_io_error_counterexample:
  "extractControl \<lparr>readAll = Inr ''payload'', gzipTar = Inr [], plainTar = [],
                    createTemp = Inl (PathError ''open'' ''/tmp/control.tar.zst1'' EROFS),
                    writeTemp = None, closeTemp = None\<rparr> ''control.tar.zst''
     = Inl (PathError ''open'' ''/tmp/control.tar.zst1'' EROFS)
   \<and> PathError ''open'' ''/tmp/control.tar.zst1'' EROFS
     \<noteq> ErrorString ''xz/zstd decompression not implemented - use gzip''"
proof -
  have "extractControl \<lparr>readAll = Inr ''payload'', gzipTar = Inr [], plainTar = [],
                    createTemp = Inl (PathError ''open'' ''/tmp/control.tar.zst1'' EROFS),
                    writeTemp = None, closeTemp = None\<rparr> ''control.tar.zst''
     = Inl (PathError ''open'' ''/tmp/control.tar.zst1'' EROFS)"
    by code_simp
  then show ?thesis by simp
qed

section \<open>Properties of parseControl and ControlString\<close>

declare formatBits.simps [simp del]

declare trimSpaceStop.simps [simp del]

lemma byte_digitChar: "0 \<le> d \<Longrightarrow> d < 10 \<Longrightarrow> byte (digitChar d) = 48 + d"
  by (simp add: byte_def digitChar_def)

lemma isDigit_digitChar: "0 \<le> d \<Longrightarrow> d < 10 \<Longrightarrow> isDigit (digitChar d)"
  by (simp add: isDigit_def byte_digitChar)

lemma parseUintLoop_append:
  "parseUintLoop a (xs @ ys) =
     (if snd (parseUintLoop a xs) = None then parseUintLoop (fst (parseUintLoop a xs)) ys
      else parseUintLoop a xs)"
  by (induction xs arbitrary: a) auto

lemma parseUintLoop_digit:
  assumes "0 \<le> d" "d < 10" "0 \<le> n" "n * 10 + d \<le> maxUint64"
  shows "parseUintLoop n [digitChar d] = (n * 10 + d, None)"
proof -
  have "n < maxUint64 div 10 + 1"
    using assms by (simp add: maxUint64_def)
  then show ?thesis
    using assms by (simp add: isDigit_digitChar byte_digitChar)
qed

lemma parseUintLoop_formatBits:
  "0 \<le> u \<Longrightarrow> u \<le> maxUint64 \<Longrightarrow> parseUintLoop 0 (formatBits u) = (u, None)"
proof (induction u rule: formatBits.induct)
  case (1 u)
  show ?case
  proof (cases "u < 10")
    case True
    then show ?thesis
      using 1 parseUintLoop_digit [of u 0] by (subst formatBits.simps) simp
  next
    case False
    then have "parseUintLoop 0 (formatBits (u div 10)) = (u div 10, None)"
      using 1 by simp
    moreover have "parseUintLoop (u div 10) [digitChar (u mod 10)] = (u, None)"
      using parseUintLoop_digit [of "u mod 10" "u div 10"] 1 by simp
    ultimately show ?thesis
      using False by (subst formatBits.simps) (simp add: parseUintLoop_append)
  qed
qed

lemma formatBits_digits: "0 \<le> u \<Longrightarrow> \<forall>c\<in>set (formatBits u). isDigit c"
proof (induction u rule: formatBits.induct)
  case (1 u)
  show ?case
  proof (cases "u < 10")
    case True
    then show ?thesis
      using 1 by (subst formatBits.simps) (simp add: isDigit_digitChar)
  next
    case False
    then have "\<forall>c\<in>set (formatBits (u div 10)). isDigit c"
      using 1 by simp
    then show ?thesis
      using False by (subst formatBits.simps) (simp add: isDigit_digitChar)
  qed
qed

lemma formatBits_ne: "formatBits u \<noteq> []"
  by (subst formatBits.simps) simp

lemma ParseInt_FormatInt:
  assumes "0 \<le> x" "x < 2 ^ 63"
  shows "ParseInt (FormatInt x) = (x, None)"
proof -
  have d: "\<forall>c\<in>set (formatBits x). isDigit c"
    using assms(1) by (rule formatBits_digits)
  have ne: "formatBits x \<noteq> []"
    by (rule formatBits_ne)
  then have "hd (formatBits x) \<in> set (formatBits x)"
    by simp
  with d have "isDigit (hd (formatBits x))"
    by blast
  then have sign: "hd (formatBits x) \<noteq> CHR ''+''" "hd (formatBits x) \<noteq> CHR ''-''"
    by (auto simp: isDigit_def byte_def)
  have "parseUintLoop 0 (formatBits x) = (x, None)"
    using assms by (intro parseUintLoop_formatBits) (simp_all add: maxUint64_def)
  then show ?thesis
    using assms ne sign by (simp add: ParseInt_def FormatInt_def ParseUint_def Let_def)
qed

lemma TrimSpace_plain_ends:
  assumes "s \<noteq> []" "byte (hd s) < 128" "\<not> asciiSpace (hd s)"
    "byte (last s) < 128" "\<not> asciiSpace (last s)"
  shows "TrimSpace s = s"
proof -
  obtain c cs where s: "s = c # cs"
    using assms(1) by (cases s) auto
  have "trimSpaceStop s = s"
    using assms by (subst trimSpaceStop.simps) simp
  then show ?thesis
    using assms s by simp
qed

lemma TrimSpace_space_Cons: "TrimSpace (CHR '' '' # s) = TrimSpace s"
  by (simp add: asciiSpace_def byte_def)

lemma isDigit_plain: "isDigit c \<Longrightarrow> byte c < 128 \<and> \<not> asciiSpace c"
  by (auto simp: isDigit_def asciiSpace_def)

lemma FormatInt_props:
  "FormatInt x \<noteq> [] \<and> CHR 0x0A \<notin> set (FormatInt x) \<and> dropCR (FormatInt x) = FormatInt x
   \<and> TrimSpace (FormatInt x) = FormatInt x"
proof -
  define u where "u = (if x < 0 then - x else x)"
  have u: "0 \<le> u" by (simp add: u_def)
  have d: "\<forall>c\<in>set (formatBits u). isDigit c"
    using u by (rule formatBits_digits)
  have ne: "formatBits u \<noteq> []"
    by (rule formatBits_ne)
  have l: "isDigit (last (formatBits u))"
    using d ne last_in_set by blast
  have h: "isDigit (hd (formatBits u))"
    using d ne hd_in_set by blast
  have F: "FormatInt x = (if x < 0 then CHR ''-'' # formatBits u else formatBits u)"
    by (simp add: FormatInt_def u_def)
  have nl: "CHR 0x0A \<notin> set (formatBits u)"
    using d by (auto simp: isDigit_def byte_def)
  have lastF: "last (FormatInt x) = last (formatBits u)"
    using ne by (simp add: F)
  have "dropCR (FormatInt x) = FormatInt x"
    using l lastF by (auto simp: dropCR_def isDigit_def byte_def)
  moreover have "TrimSpace (FormatInt x) = FormatInt x"
  proof (rule TrimSpace_plain_ends)
    show "FormatInt x \<noteq> []" using ne by (simp add: F)
    show "byte (hd (FormatInt x)) < 128" "\<not> asciiSpace (hd (FormatInt x))"
      using h isDigit_plain by (auto simp: F byte_def asciiSpace_def)
    show "byte (last (FormatInt x)) < 128" "\<not> asciiSpace (last (FormatInt x))"
      using l isDigit_plain lastF by auto
  qed
  ultimately show ?thesis
    using ne nl by (simp add: F)
qed

lemma writeField_render: "writeField b n v = b @ renderField (n, v)"
  by (simp add: writeField_def renderField_def fieldLine_def)

lemma renderField_empty: "renderField (n, []) = []"
  by (simp add: renderField_def)

lemma ControlString_fields: "ControlString p = concat (map renderField (controlFields p))"
proof (cases "0 < sint (InstalledSize p)")
  case True
  then show ?thesis
    by (simp add: ControlString_def controlFields_def Let_def writeField_render)
next
  case False
  then show ?thesis
    by (simp add: ControlString_def controlFields_def Let_def writeField_render
        renderField_empty)
qed

lemma scanLines_Nil: "scanLines [] = []"
  by (subst scanLines.simps) simp

lemma scanLines_line:
  assumes "CHR 0x0A \<notin> set l" "int (length l) < maxScanTokenSize" "dropCR l = l"
  shows "scanLines (l @ CHR 0x0A # rest) = l # scanLines rest"
proof -
  have nl: "\<And>x. x \<in> set l \<Longrightarrow> x \<noteq> CHR 0x0A"
    using assms(1) by blast
  have t: "takeWhile (\<lambda>c. c \<noteq> CHR 0x0A) (l @ CHR 0x0A # rest) = l"
    using takeWhile_append2 [of l "\<lambda>c. c \<noteq> CHR 0x0A" "CHR 0x0A # rest", OF nl] by simp
  have d: "dropWhile (\<lambda>c. c \<noteq> CHR 0x0A) (l @ CHR 0x0A # rest) = CHR 0x0A # rest"
    using dropWhile_append2 [of l "\<lambda>c. c \<noteq> CHR 0x0A" "CHR 0x0A # rest", OF nl] by simp
  show ?thesis
    using assms(2,3) by (subst scanLines.simps) (simp add: t d Let_def)
qed

lemma splitLines_ne: "splitLines s \<noteq> []"
  by (induction s) (auto split: list.splits)

lemma splitLines_no_LF: "l \<in> set (splitLines s) \<Longrightarrow> CHR 0x0A \<notin> set l"
proof (induction s arbitrary: l)
  case Nil
  then show ?case by simp
next
  case (Cons c cs)
  obtain x xs where sp: "splitLines cs = x # xs"
    using splitLines_ne [of cs] by (cases "splitLines cs") auto
  have "CHR 0x0A \<notin> set x" "\<And>y. y \<in> set xs \<Longrightarrow> CHR 0x0A \<notin> set y"
    using Cons.IH sp by auto
  then show ?case
    using Cons.prems sp by (auto split: if_splits)
qed

lemma splitLines_plain: "CHR 0x0A \<notin> set s \<Longrightarrow> splitLines s = [s]"
  by (induction s) auto

lemma join_splitLines:
  "hd (splitLines s) @ concat (map ((#) (CHR 0x0A)) (tl (splitLines s))) = s"
proof (induction s)
  case Nil
  show ?case by simp
next
  case (Cons c cs)
  obtain x xs where sp: "splitLines cs = x # xs"
    using splitLines_ne [of cs] by (cases "splitLines cs") auto
  show ?case
    using Cons sp by simp
qed

lemma scanLines_block:
  assumes "\<forall>l\<in>set (l0 # ls). CHR 0x0A \<notin> set l \<and> int (length l) < maxScanTokenSize
             \<and> dropCR l = l"
  shows "scanLines (l0 @ concat (map ((#) (CHR 0x0A)) ls) @ CHR 0x0A # rest)
           = (l0 # ls) @ scanLines rest"
  using assms
proof (induction ls arbitrary: l0)
  case Nil
  then show ?case
    using scanLines_line [of l0 rest] by simp
next
  case (Cons l1 ls)
  have "scanLines (l0 @ CHR 0x0A # (l1 @ concat (map ((#) (CHR 0x0A)) ls) @ CHR 0x0A # rest))
          = l0 # scanLines (l1 @ concat (map ((#) (CHR 0x0A)) ls) @ CHR 0x0A # rest)"
    using Cons.prems by (intro scanLines_line) simp_all
  moreover have "scanLines (l1 @ concat (map ((#) (CHR 0x0A)) ls) @ CHR 0x0A # rest)
          = (l1 # ls) @ scanLines rest"
    using Cons.prems by (intro Cons.IH) simp
  ultimately show ?case by simp
qed

lemma dropCR_append:
  assumes "v \<noteq> []" "dropCR v = v"
  shows "dropCR (n @ v) = n @ v"
proof -
  have "last v \<noteq> CHR 0x0D"
  proof
    assume "last v = CHR 0x0D"
    with assms have "butlast v = v" by (simp add: dropCR_def)
    moreover have "length (butlast v) < length v"
      using assms(1) by (cases v rule: rev_cases) simp_all
    ultimately show False by simp
  qed
  then show ?thesis
    using assms(1) by (simp add: dropCR_def)
qed

lemma fieldLines_ok:
  assumes "nameOK (fst f)" "valueOK (fst f) (snd f)" "snd f \<noteq> []"
  shows "\<forall>l\<in>set (fieldLines f). CHR 0x0A \<notin> set l \<and> int (length l) < maxScanTokenSize
           \<and> dropCR l = l"
proof -
  let ?l0 = "hd (splitLines (snd f))"
  let ?ls = "tl (splitLines (snd f))"
  have sp: "splitLines (snd f) = ?l0 # ?ls"
    using splitLines_ne [of "snd f"] by simp
  from assms(2,3) have v: "TrimSpace (snd f) = snd f"
    "int (length (fst f)) + 2 + int (length ?l0) < maxScanTokenSize"
    "\<forall>l\<in>set (splitLines (snd f)). dropCR l = l"
    "\<forall>l\<in>set ?ls. l \<noteq> [] \<and> int (length l) < maxScanTokenSize"
    by (simp_all add: valueOK_def)
  have nolf: "\<forall>l\<in>set (splitLines (snd f)). CHR 0x0A \<notin> set l"
    using splitLines_no_LF by blast
  have l0: "?l0 \<in> set (splitLines (snd f))" and ls: "set ?ls \<subseteq> set (splitLines (snd f))"
    using sp by (metis list.set_intros(1), metis list.set_intros(2) subsetI)
  have tr: "TrimSpace ?l0 = ?l0"
    using assms(2,3) by (simp add: valueOK_def)
  have first: "CHR 0x0A \<notin> set (fst f @ '': '' @ ?l0)"
    using assms(1) nolf l0 by (simp add: nameOK_def)
  have d0: "dropCR ?l0 = ?l0"
    using v(3) l0 by blast
  have cr: "dropCR (fst f @ '': '' @ ?l0) = fst f @ '': '' @ ?l0"
  proof (cases "?l0 = []")
    case True
    then show ?thesis by (simp add: dropCR_def)
  next
    case False
    from False d0 have "dropCR ((fst f @ '': '') @ ?l0) = (fst f @ '': '') @ ?l0"
      by (rule dropCR_append)
    then show ?thesis by simp
  qed
  have len: "int (length (fst f @ '': '' @ ?l0)) < maxScanTokenSize"
    using v(2) by simp
  have rest: "\<forall>l\<in>set ?ls. CHR 0x0A \<notin> set l \<and> int (length l) < maxScanTokenSize
           \<and> dropCR l = l"
    using nolf v(3,4) ls by blast
  show ?thesis
    unfolding fieldLines_def using first cr len rest by simp
qed

lemma renderField_lines:
  assumes "snd f \<noteq> []"
  shows "renderField f @ rest
           = (fst f @ '': '' @ hd (splitLines (snd f)))
             @ concat (map ((#) (CHR 0x0A)) (tl (splitLines (snd f)))) @ CHR 0x0A # rest"
proof -
  have "renderField f @ rest = fst f @ '': '' @ snd f @ CHR 0x0A # rest"
    using assms by (simp add: renderField_def fieldLine_def)
  also have "snd f = hd (splitLines (snd f))
               @ concat (map ((#) (CHR 0x0A)) (tl (splitLines (snd f))))"
    by (simp only: join_splitLines)
  finally show ?thesis by simp
qed

lemma scanLines_render:
  assumes "\<forall>f\<in>set fs. nameOK (fst f) \<and> valueOK (fst f) (snd f)"
  shows "scanLines (concat (map renderField fs))
           = concat (map fieldLines (filter (\<lambda>f. snd f \<noteq> []) fs))"
  using assms
proof (induction fs)
  case Nil
  then show ?case by (simp add: scanLines_Nil)
next
  case (Cons f fs)
  show ?case
  proof (cases "snd f = []")
    case True
    with Cons show ?thesis by (simp add: renderField_def)
  next
    case False
    let ?rest = "concat (map renderField fs)"
    have ok: "\<forall>l\<in>set ((fst f @ '': '' @ hd (splitLines (snd f))) # tl (splitLines (snd f))).
                CHR 0x0A \<notin> set l \<and> int (length l) < maxScanTokenSize \<and> dropCR l = l"
      using fieldLines_ok [of f] Cons.prems False by (simp add: fieldLines_def)
    have "scanLines (renderField f @ ?rest) = fieldLines f @ scanLines ?rest"
      unfolding renderField_lines [OF False] fieldLines_def
      by (rule scanLines_block [OF ok])
    with False Cons show ?thesis by simp
  qed
qed

lemma parseLine_first:
  assumes "nameOK n"
  shows "parseLine (pkg, cf, cv) (n @ '': '' @ l) = (saveField pkg cf cv, n, TrimSpace l)"
proof -
  from assms have n: "n \<noteq> []" "CHR '':'' \<notin> set n" "hd n \<noteq> CHR '' ''" "hd n \<noteq> CHR 0x09"
    by (simp_all add: nameOK_def)
  have first: "(n @ '': '' @ l) ! 0 = hd n"
    using n(1) by (cases n) simp_all
  have nc: "\<And>x. x \<in> set n \<Longrightarrow> x \<noteq> CHR '':''"
    using n(2) by blast
  have "takeWhile (\<lambda>x. x \<noteq> CHR '':'') (n @ '': '' @ l) = n"
    using takeWhile_append2 [of n "\<lambda>x. x \<noteq> CHR '':''" "'': '' @ l", OF nc] by simp
  then have idx: "IndexByte (n @ '': '' @ l) (CHR '':'') = int (length n)"
    by (simp add: IndexByte_def)
  have "drop (nat (int (length n) + 1)) (n @ '': '' @ l) = CHR '' '' # l"
    by (simp add: nat_add_distrib)
  then have "TrimSpace (drop (nat (int (length n) + 1)) (n @ '': '' @ l)) = TrimSpace l"
    by (simp only: TrimSpace_space_Cons)
  then show ?thesis
    using n first idx by (simp add: parseLine_def Let_def)
qed

lemma parseLine_continuation:
  assumes "l \<noteq> []" "hd l = CHR '' '' \<or> hd l = CHR 0x09"
  shows "parseLine (pkg, cf, cv) l = (pkg, cf, cv @ CHR 0x0A # l)"
proof -
  have "l ! 0 = hd l"
    using assms(1) by (cases l) simp_all
  then show ?thesis
    using assms by (simp add: parseLine_def)
qed

lemma parseLine_continuations:
  assumes "\<forall>l\<in>set ls. l \<noteq> [] \<and> (hd l = CHR '' '' \<or> hd l = CHR 0x09)"
  shows "foldl parseLine (pkg, cf, cv) ls = (pkg, cf, cv @ concat (map ((#) (CHR 0x0A)) ls))"
  using assms by (induction ls arbitrary: cv) (simp_all add: parseLine_continuation)

lemma parseLine_field:
  assumes "nameOK (fst f)" "valueOK (fst f) (snd f)" "snd f \<noteq> []"
  shows "foldl parseLine (pkg, cf, cv) (fieldLines f) = (saveField pkg cf cv, fst f, snd f)"
proof -
  let ?l0 = "hd (splitLines (snd f))"
  let ?ls = "tl (splitLines (snd f))"
  from assms(2,3) have tr: "TrimSpace ?l0 = ?l0"
    and conts: "\<forall>l\<in>set ?ls. l \<noteq> [] \<and> (hd l = CHR '' '' \<or> hd l = CHR 0x09)"
    by (simp_all add: valueOK_def)
  have "foldl parseLine (pkg, cf, cv) (fieldLines f)
          = foldl parseLine (saveField pkg cf cv, fst f, ?l0) ?ls"
    using parseLine_first [OF assms(1), of pkg cf cv ?l0] tr by (simp add: fieldLines_def)
  also have "\<dots> = (saveField pkg cf cv, fst f, ?l0 @ concat (map ((#) (CHR 0x0A)) ?ls))"
    by (rule parseLine_continuations [OF conts])
  finally show ?thesis
    by (simp only: join_splitLines)
qed

lemma parse_fold:
  assumes "\<forall>f\<in>set fs. nameOK (fst f) \<and> valueOK (fst f) (snd f) \<and> snd f \<noteq> []"
  shows "(case foldl parseLine (pkg, cf, cv) (concat (map fieldLines fs)) of
            (pkg', cf', cv') \<Rightarrow> saveField pkg' cf' cv')
         = foldl assign (saveField pkg cf cv) fs"
  using assms
proof (induction fs arbitrary: pkg cf cv)
  case Nil
  then show ?case by simp
next
  case (Cons f fs)
  then have "foldl parseLine (pkg, cf, cv) (fieldLines f) = (saveField pkg cf cv, fst f, snd f)"
    by (intro parseLine_field) simp_all
  then show ?case
    using Cons.IH [of "saveField pkg cf cv" "fst f" "snd f"] Cons.prems
    by (simp add: assign_def)
qed

lemma lookStr_Cons:
  "lookStr n (f # fs) d = lookStr n fs (if fst f = n then TrimSpace (snd f) else d)"
  by (simp add: lookStr_def)

lemma lookSize_Cons:
  "lookSize (f # fs) d =
     lookSize fs (if fst f = ''Installed-Size'' \<and> snd (ParseInt (TrimSpace (snd f))) = None
                  then word_of_int (fst (ParseInt (TrimSpace (snd f)))) else d)"
  by (simp add: lookSize_def)

lemma assign_sel:
  "Name (assign pkg f) = (if fst f = ''Package'' then TrimSpace (snd f) else Name pkg)"
  "Version (assign pkg f) = (if fst f = ''Version'' then TrimSpace (snd f) else Version pkg)"
  "Architecture (assign pkg f)
     = (if fst f = ''Architecture'' then TrimSpace (snd f) else Architecture pkg)"
  "Maintainer (assign pkg f) = (if fst f = ''Maintainer'' then TrimSpace (snd f) else Maintainer pkg)"
  "Description (assign pkg f)
     = (if fst f = ''Description'' then TrimSpace (snd f) else Description pkg)"
  "Depends (assign pkg f) = (if fst f = ''Depends'' then TrimSpace (snd f) else Depends pkg)"
  "PreDepends (assign pkg f)
     = (if fst f = ''Pre-Depends'' then TrimSpace (snd f) else PreDepends pkg)"
  "Recommends (assign pkg f)
     = (if fst f = ''Recommends'' then TrimSpace (snd f) else Recommends pkg)"
  "Suggests (assign pkg f) = (if fst f = ''Suggests'' then TrimSpace (snd f) else Suggests pkg)"
  "Conflicts (assign pkg f) = (if fst f = ''Conflicts'' then TrimSpace (snd f) else Conflicts pkg)"
  "Provides (assign pkg f) = (if fst f = ''Provides'' then TrimSpace (snd f) else Provides pkg)"
  "Replaces (assign pkg f) = (if fst f = ''Replaces'' then TrimSpace (snd f) else Replaces pkg)"
  "Section (assign pkg f) = (if fst f = ''Section'' then TrimSpace (snd f) else Section pkg)"
  "Priority (assign pkg f) = (if fst f = ''Priority'' then TrimSpace (snd f) else Priority pkg)"
  "Homepage (assign pkg f) = (if fst f = ''Homepage'' then TrimSpace (snd f) else Homepage pkg)"
  "InstalledSize (assign pkg f)
     = (if fst f = ''Installed-Size'' \<and> snd (ParseInt (TrimSpace (snd f))) = None
        then word_of_int (fst (ParseInt (TrimSpace (snd f)))) else InstalledSize pkg)"
  "Size (assign pkg f) = Size pkg"
  "Filename (assign pkg f) = Filename pkg"
  "MD5sum (assign pkg f) = MD5sum pkg"
  "SHA1 (assign pkg f) = SHA1 pkg"
  "SHA256 (assign pkg f) = SHA256 pkg"
  by (simp_all add: assign_def saveField_def Let_def)

lemma foldl_assign_sel:
  "Name (foldl assign pkg fs) = lookStr ''Package'' fs (Name pkg)"
  "Version (foldl assign pkg fs) = lookStr ''Version'' fs (Version pkg)"
  "Architecture (foldl assign pkg fs) = lookStr ''Architecture'' fs (Architecture pkg)"
  "Maintainer (foldl assign pkg fs) = lookStr ''Maintainer'' fs (Maintainer pkg)"
  "Description (foldl assign pkg fs) = lookStr ''Description'' fs (Description pkg)"
  "Depends (foldl assign pkg fs) = lookStr ''Depends'' fs (Depends pkg)"
  "PreDepends (foldl assign pkg fs) = lookStr ''Pre-Depends'' fs (PreDepends pkg)"
  "Recommends (foldl assign pkg fs) = lookStr ''Recommends'' fs (Recommends pkg)"
  "Suggests (foldl assign pkg fs) = lookStr ''Suggests'' fs (Suggests pkg)"
  "Conflicts (foldl assign pkg fs) = lookStr ''Conflicts'' fs (Conflicts pkg)"
  "Provides (foldl assign pkg fs) = lookStr ''Provides'' fs (Provides pkg)"
  "Replaces (foldl assign pkg fs) = lookStr ''Replaces'' fs (Replaces pkg)"
  "Section (foldl assign pkg fs) = lookStr ''Section'' fs (Section pkg)"
  "Priority (foldl assign pkg fs) = lookStr ''Priority'' fs (Priority pkg)"
  "Homepage (foldl assign pkg fs) = lookStr ''Homepage'' fs (Homepage pkg)"
  "InstalledSize (foldl assign pkg fs) = lookSize fs (InstalledSize pkg)"
  "Size (foldl assign pkg fs) = Size pkg"
  "Filename (foldl assign pkg fs) = Filename pkg"
  "MD5sum (foldl assign pkg fs) = MD5sum pkg"
  "SHA1 (foldl assign pkg fs) = SHA1 pkg"
  "SHA256 (foldl assign pkg fs) = SHA256 pkg"
  by (induction fs arbitrary: pkg)
    (simp_all add: lookStr_Cons lookSize_Cons assign_sel, simp_all add: lookStr_def lookSize_def)

lemma more_assign: "Package.more (assign pkg f) = Package.more pkg"
  by (simp add: assign_def saveField_def Let_def)

lemma more_foldl_assign: "Package.more (foldl assign pkg fs) = Package.more pkg"
  by (induction fs arbitrary: pkg) (simp_all add: more_assign)

lemma lookStr_filter:
  assumes "\<forall>f\<in>set fs. snd f \<noteq> [] \<longrightarrow> TrimSpace (snd f) = snd f"
  shows "lookStr n (filter (\<lambda>f. snd f \<noteq> []) fs) d = lookRaw n fs d"
  using assms by (induction fs arbitrary: d) (simp_all add: lookStr_def lookRaw_def)

lemma ParseInt_Nil: "ParseInt [] = (0, Some ErrSyntax)"
  by (simp add: ParseInt_def)

lemma lookSize_filter: "lookSize (filter (\<lambda>f. snd f \<noteq> []) fs) d = lookSize fs d"
  by (induction fs arbitrary: d) (simp_all add: lookSize_def ParseInt_Nil)

lemma lookRaw_fields:
  "lookRaw ''Package'' (controlFields p) [] = Name p"
  "lookRaw ''Version'' (controlFields p) [] = Version p"
  "lookRaw ''Architecture'' (controlFields p) [] = Architecture p"
  "lookRaw ''Maintainer'' (controlFields p) [] = Maintainer p"
  "lookRaw ''Description'' (controlFields p) [] = Description p"
  "lookRaw ''Depends'' (controlFields p) [] = Depends p"
  "lookRaw ''Pre-Depends'' (controlFields p) [] = PreDepends p"
  "lookRaw ''Recommends'' (controlFields p) [] = Recommends p"
  "lookRaw ''Suggests'' (controlFields p) [] = Suggests p"
  "lookRaw ''Conflicts'' (controlFields p) [] = Conflicts p"
  "lookRaw ''Provides'' (controlFields p) [] = Provides p"
  "lookRaw ''Replaces'' (controlFields p) [] = Replaces p"
  "lookRaw ''Section'' (controlFields p) [] = Section p"
  "lookRaw ''Priority'' (controlFields p) [] = Priority p"
  "lookRaw ''Homepage'' (controlFields p) [] = Homepage p"
  by (simp_all add: lookRaw_def controlFields_def)

lemma sint_int64_bounds: "- (2 ^ 63) \<le> sint (w :: int64)" "sint (w :: int64) < 2 ^ 63"
  using sint_ge [of w] sint_lt [of w] by simp_all

lemma lookSize_fields:
  "lookSize (controlFields p) 0
     = (if 0 < sint (InstalledSize p) then InstalledSize p else 0)"
proof (cases "0 < sint (InstalledSize p)")
  case True
  then have "ParseInt (FormatInt (sint (InstalledSize p))) = (sint (InstalledSize p), None)"
    using sint_int64_bounds(2) [of "InstalledSize p"] by (intro ParseInt_FormatInt) simp_all
  then show ?thesis
    using True FormatInt_props [of "sint (InstalledSize p)"]
    by (simp add: lookSize_def controlFields_def)
next
  case False
  then show ?thesis
    by (simp add: lookSize_def controlFields_def ParseInt_Nil)
qed

lemma formatBits_length:
  "0 \<le> u \<Longrightarrow> u < 10 ^ Suc k \<Longrightarrow> length (formatBits u) \<le> Suc k"
proof (induction k arbitrary: u)
  case 0
  then show ?case by (subst formatBits.simps) simp
next
  case (Suc k)
  show ?case
  proof (cases "u < 10")
    case True
    then show ?thesis by (subst formatBits.simps) simp
  next
    case False
    have "u div 10 < 10 ^ Suc k"
      using Suc.prems by simp
    moreover have "0 \<le> u div 10"
      using Suc.prems by simp
    ultimately have "length (formatBits (u div 10)) \<le> Suc k"
      by (rule Suc.IH [rotated])
    then show ?thesis
      using False by (subst formatBits.simps) simp
  qed
qed

lemma FormatInt_length: "length (FormatInt (sint (w :: int64))) \<le> 20"
proof -
  define x where "x = sint w"
  define u where "u = (if x < 0 then - x else x)"
  have "0 \<le> u" "u < 10 ^ Suc 18"
    using sint_int64_bounds [of w] by (simp_all add: u_def x_def)
  then have "length (formatBits u) \<le> Suc 18"
    by (rule formatBits_length)
  then show ?thesis
    by (auto simp: FormatInt_def u_def x_def split: if_splits)
qed

lemma valueOK_FormatInt:
  assumes "length n \<le> 20"
  shows "valueOK n (FormatInt (sint (w :: int64)))"
  using FormatInt_props [of "sint w"] FormatInt_length [of w] assms
  by (simp add: valueOK_def maxScanTokenSize_def splitLines_plain)

lemma valueOK_Nil: "valueOK n []"
  by (simp add: valueOK_def)

lemma controlFields_ok:
  assumes "roundTripOK p"
  shows "\<forall>f\<in>set (controlFields p). nameOK (fst f) \<and> valueOK (fst f) (snd f)"
proof -
  have names: "\<forall>f\<in>set (controlFields p). nameOK (fst f)"
    by (simp add: controlFields_def nameOK_def)
  have strs: "\<forall>f\<in>set (stringFields p). valueOK (fst f) (snd f)"
    using assms by (simp add: roundTripOK_def list_all_iff)
  have inst: "valueOK ''Installed-Size''
      (if sint (InstalledSize p) > 0 then FormatInt (sint (InstalledSize p)) else [])"
    using valueOK_FormatInt [of "''Installed-Size''" "InstalledSize p"] valueOK_Nil by simp
  have size: "valueOK ''Size'' (FormatInt (sint (Size p)))"
    by (rule valueOK_FormatInt) simp
  have "set (controlFields p) = set (stringFields p)
      \<union> {(''Installed-Size'',
            if sint (InstalledSize p) > 0 then FormatInt (sint (InstalledSize p)) else []),
         (''Size'', FormatInt (sint (Size p)))}"
    by (simp add: controlFields_def stringFields_def insert_commute)
  then have "\<forall>f\<in>set (controlFields p). valueOK (fst f) (snd f)"
    using strs inst size by (simp only: ball_Un ball_simps fst_conv snd_conv)
  with names show ?thesis by blast
qed

lemma parseControl_fields:
  assumes "roundTripOK p"
  shows "foldl parseLine (emptyPackage, [], []) (scanLines (ControlString p)) = st
         \<Longrightarrow> (case st of (pkg, cf, cv) \<Rightarrow> saveField pkg cf cv)
             = foldl assign emptyPackage (filter (\<lambda>f. snd f \<noteq> []) (controlFields p))"
proof -
  let ?fs = "filter (\<lambda>f. snd f \<noteq> []) (controlFields p)"
  assume st: "foldl parseLine (emptyPackage, [], []) (scanLines (ControlString p)) = st"
  note ok = controlFields_ok [OF assms]
  have lines: "scanLines (ControlString p) = concat (map fieldLines ?fs)"
    using scanLines_render [OF ok] by (simp add: ControlString_fields)
  have "\<forall>f\<in>set ?fs. nameOK (fst f) \<and> valueOK (fst f) (snd f) \<and> snd f \<noteq> []"
    using ok by simp
  from parse_fold [OF this, of emptyPackage "[]" "[]"] st lines
  show ?thesis by (simp add: saveField_def)
qed

text \<open>
  Claim C1, amended. For every record with non-empty name, version and architecture
  whose text fields survive the scanner and the trimming (\<open>roundTripOK\<close>: each is empty,
  or a first line and any number of continuation lines that start with a blank or a
  tab, with no white space around the value or around its first line, no carriage
  return at the end of a line, and lines that fit the scanner's buffer), parsing the
  text of \<open>ControlString\<close> succeeds and returns the record with \<open>Filename\<close>, \<open>MD5sum\<close>,
  \<open>SHA1\<close> and \<open>SHA256\<close> empty and \<open>Size\<close> zero: \<open>parseControl\<close> has no case for these
  five fields. All other text fields come back as they were, continuation lines
  included, and \<open>InstalledSize\<close> comes back when it is positive (it is not written
  otherwise).
\<close>

theorem parseControl_ControlString:
  assumes "Name p \<noteq> []" "Version p \<noteq> []" "Architecture p \<noteq> []" and "roundTripOK p"
  shows "parseControl (ControlString p)
           = Inr (p\<lparr>Size := 0,
                   InstalledSize := (if 0 < sint (InstalledSize p) then InstalledSize p else 0),
                   Filename := [], MD5sum := [], SHA1 := [], SHA256 := []\<rparr>)"
proof -
  let ?fs = "filter (\<lambda>f. snd f \<noteq> []) (controlFields p)"
  let ?q = "foldl assign emptyPackage ?fs"
  note ok = controlFields_ok [OF assms(4)]
  have trim: "\<forall>f\<in>set (controlFields p). snd f \<noteq> [] \<longrightarrow> TrimSpace (snd f) = snd f"
    using ok by (auto simp: valueOK_def)
  note look = lookStr_filter [OF trim]
  have q: "?q = p\<lparr>Size := 0,
                   InstalledSize := (if 0 < sint (InstalledSize p) then InstalledSize p else 0),
                   Filename := [], MD5sum := [], SHA1 := [], SHA256 := []\<rparr>"
    by (rule Package.equality)
      (simp_all add: foldl_assign_sel more_foldl_assign look lookRaw_fields lookSize_filter
        lookSize_fields emptyPackage_def)
  obtain pkg cf cv where
    st: "foldl parseLine (emptyPackage, [], []) (scanLines (ControlString p)) = (pkg, cf, cv)"
    by (cases "foldl parseLine (emptyPackage, [], []) (scanLines (ControlString p))")
  from parseControl_fields [OF assms(4) st] have "saveField pkg cf cv = ?q"
    by simp
  then show ?thesis
    using assms(1-3) by (simp add: parseControl_def st q)
qed

theorem parseControl_ControlString_witness:
  "parseControl (ControlString multiLinePackage)
     = Inr (multiLinePackage\<lparr>Size := 0, InstalledSize := 12, Filename := [], MD5sum := [],
                              SHA1 := [], SHA256 := []\<rparr>)
   \<and> Description multiLinePackage
       = ''short'' @ [CHR 0x0A] @ '' A longer text.'' @ [CHR 0x0A] @ '' .''
           @ [CHR 0x0A] @ [CHR 0x09] @ ''Its last line.''"
proof -
  have ok: "roundTripOK multiLinePackage" by code_simp
  have ne: "Name multiLinePackage \<noteq> []" "Version multiLinePackage \<noteq> []"
    "Architecture multiLinePackage \<noteq> []"
    by (simp_all add: multiLinePackage_def samplePackage_def emptyPackage_def)
  have "(0::int) < sint (InstalledSize multiLinePackage)" "InstalledSize multiLinePackage = 12"
    by (simp_all add: multiLinePackage_def samplePackage_def emptyPackage_def)
  moreover have "Description multiLinePackage
       = ''short'' @ [CHR 0x0A] @ '' A longer text.'' @ [CHR 0x0A] @ '' .''
           @ [CHR 0x0A] @ [CHR 0x09] @ ''Its last line.''"
    by (simp add: multiLinePackage_def)
  ultimately show ?thesis
    using parseControl_ControlString [OF ne ok] by simp
qed

text \<open>
  Claim C1 as stated has \<open>Size\<close>, \<open>MD5sum\<close>, \<open>SHA1\<close>, \<open>SHA256\<close> and \<open>Filename\<close> survive the
  round trip. They are written by \<open>ControlString\<close> and dropped by \<open>parseControl\<close>.
\<close>

theorem parseControl_drops_index_fields_counterexample:
  "(case parseControl (ControlString samplePackage) of
      Inl err \<Rightarrow> False
    | Inr q \<Rightarrow> Size q = 0 \<and> MD5sum q = [] \<and> SHA1 q = [] \<and> SHA256 q = [] \<and> Filename q = [])
   \<and> Size samplePackage = 2048 \<and> MD5sum samplePackage = ''d41d8cd9''
   \<and> SHA1 samplePackage = ''da39a3ee'' \<and> SHA256 samplePackage = ''e3b0c442''
   \<and> Filename samplePackage = ''pool/main/p/pkg/pkg_1.0_amd64.deb''"
  by code_simp

section \<open>Properties of Prune\<close>

lemma osRemove_cases:
  obtains err where "osRemove fs p = (Some err, fs)"
  | "osRemove fs p = (None, filter (\<lambda>m. npath m \<noteq> p) fs)"
proof (cases "find (\<lambda>n. npath n = p) fs")
  case None
  then have "osRemove fs p = (Some (PathError ''remove'' p ENOENT), fs)"
    by (simp add: osRemove_def)
  then show ?thesis by (rule that(1))
next
  case (Some n)
  show ?thesis
  proof (cases "nremoveErr n")
    case None
    with Some have "osRemove fs p = (None, filter (\<lambda>m. npath m \<noteq> p) fs)"
      by (simp add: osRemove_def)
    then show ?thesis by (rule that(2))
  next
    case (Some e)
    with \<open>find (\<lambda>n. npath n = p) fs = Some n\<close> have "osRemove fs p = (Some e, fs)"
      by (simp add: osRemove_def)
    then show ?thesis by (rule that(1))
  qed
qed

lemma same_path_same_node:
  assumes "distinct (map npath fs)" "n \<in> set fs" "m \<in> set fs" "npath n = npath m"
  shows "n = m"
  using assms by (meson distinct_map inj_onD)

lemma archiveGroups_appendGroup:
  assumes "archiveGroups fs g" "fileArchive fs (Path pf)"
  shows "archiveGroups fs (appendGroup g key pf)"
  using assms by (induction g key pf rule: appendGroup.induct) (auto simp: archiveGroups_def)

lemma archiveGroups_pruneWalk:
  assumes "archiveGroups fs g" "set ns \<subseteq> set fs"
  shows "archiveGroups fs (fst (pruneWalk ns g))"
  using assms
proof (induction ns arbitrary: g)
  case Nil
  then show ?case by simp
next
  case (Cons n ns)
  show ?case
  proof (cases "nwalkErr n = None \<and> \<not> nisDir n \<and> HasSuffix (npath n) ''.deb''
                \<and> (\<exists>pkg. nparse n = Inr pkg)")
    case True
    then obtain pkg where pkg: "nparse n = Inr pkg" by blast
    have "fileArchive fs (npath n)"
      using True Cons.prems(2) by (auto simp: fileArchive_def)
    then have "archiveGroups fs (appendGroup g (Name pkg @ ''_'' @ Architecture pkg)
                  \<lparr>Path = npath n, FileVersion = Version pkg\<rparr>)"
      using Cons.prems(1) by (intro archiveGroups_appendGroup) simp_all
    then show ?thesis
      using True pkg Cons.IH Cons.prems(2) by simp
  next
    case False
    then show ?thesis
      using Cons by (auto split: option.splits sum.splits)
  qed
qed

lemma sortPass_mset: "mset (fst (sortPass c xs) # snd (sortPass c xs)) = mset (c # xs)"
  by (induction xs arbitrary: c) auto

lemma sortPass_length: "length (snd (sortPass c xs)) = length xs"
  by (induction xs arbitrary: c) simp_all

lemma sortPackageFiles_mset: "mset (sortPackageFiles xs) = mset xs"
proof (induction xs rule: length_induct)
  case (1 xs)
  show ?case
  proof (cases xs)
    case Nil
    then show ?thesis by simp
  next
    case (Cons c cs)
    have "mset (sortPackageFiles (snd (sortPass c cs))) = mset (snd (sortPass c cs))"
      using 1 Cons by (simp add: sortPass_length)
    then show ?thesis
      using Cons sortPass_mset [of c cs] by simp
  qed
qed

lemma sortPackageFiles_set: "set (sortPackageFiles xs) = set xs"
  using sortPackageFiles_mset [of xs] by (metis set_mset_mset)

lemma pruneGroup_frame:
  assumes "\<forall>pf\<in>set pfs. fileArchive fs0 (Path pf)" "distinct (map npath fs0)"
    "set fs \<subseteq> set fs0" "pruneGroup opts i pfs res fs = (err, res', fs')"
  shows "set fs' \<subseteq> set fs
         \<and> (\<forall>n\<in>set fs. n \<notin> set fs' \<longrightarrow> \<not> nisDir n \<and> HasSuffix (npath n) ''.deb'')
         \<and> set (Deleted res') \<subseteq> set (Deleted res) \<union> Path ` set pfs
         \<and> (DryRun opts \<longrightarrow> fs' = fs)"
  using assms
proof (induction pfs arbitrary: i res fs)
  case Nil
  then show ?case by simp
next
  case (Cons pf pfs)
  have rest: "\<forall>pf\<in>set pfs. fileArchive fs0 (Path pf)"
    using Cons.prems(1) by simp
  show ?case
  proof (cases "i < KeepVersions opts")
    case True
    then have "pruneGroup opts (i + 1) pfs (res\<lparr>Kept := Kept res @ [Path pf]\<rparr>) fs
                = (err, res', fs')"
      using Cons.prems(4) by simp
    from Cons.IH [OF rest Cons.prems(2,3) this] show ?thesis
      by auto
  next
    case False
    let ?res1 = "res\<lparr>Deleted := Deleted res @ [Path pf]\<rparr>"
    show ?thesis
    proof (cases "DryRun opts")
      case True
      then have "pruneGroup opts (i + 1) pfs ?res1 fs = (err, res', fs')"
        using Cons.prems(4) False by (simp add: Let_def)
      from Cons.IH [OF rest Cons.prems(2,3) this] show ?thesis
        by auto
    next
      case dry: False
      show ?thesis
      proof (cases rule: osRemove_cases [of fs "Path pf"])
        case (1 e)
        then have "fs' = fs" "res' = ?res1"
          using Cons.prems(4) False dry by (simp_all add: Let_def)
        then show ?thesis using dry by auto
      next
        case 2
        let ?fs1 = "filter (\<lambda>m. npath m \<noteq> Path pf) fs"
        have run: "pruneGroup opts (i + 1) pfs ?res1 ?fs1 = (err, res', fs')"
          using Cons.prems(4) False dry 2 by (simp add: Let_def)
        have sub: "set ?fs1 \<subseteq> set fs0"
          using Cons.prems(3) by auto
        note ih = Cons.IH [OF rest Cons.prems(2) sub run]
        obtain a where a: "a \<in> set fs0" "npath a = Path pf" "\<not> nisDir a"
          "HasSuffix (Path pf) ''.deb''"
          using Cons.prems(1) by (auto simp: fileArchive_def)
        have gone: "\<not> nisDir n \<and> HasSuffix (npath n) ''.deb''"
          if "n \<in> set fs" "n \<notin> set ?fs1" for n
        proof -
          from that have "npath n = Path pf" by simp
          moreover have "n \<in> set fs0" using that(1) Cons.prems(3) by blast
          ultimately have "n = a"
            using same_path_same_node [OF Cons.prems(2), of n a] a by simp
          then show ?thesis using a by simp
        qed
        have "set fs' \<subseteq> set fs"
          using ih by auto
        moreover have "\<forall>n\<in>set fs. n \<notin> set fs' \<longrightarrow> \<not> nisDir n \<and> HasSuffix (npath n) ''.deb''"
          using ih gone by blast
        moreover have "set (Deleted res') \<subseteq> set (Deleted res) \<union> Path ` set (pf # pfs)"
          using ih by auto
        ultimately show ?thesis using dry by blast
      qed
    qed
  qed
qed

lemma pruneGroups_frame:
  assumes "archiveGroups fs0 g" "distinct (map npath fs0)"
    "set fs \<subseteq> set fs0" "pruneGroups opts g res fs = (err, res', fs')"
  shows "set fs' \<subseteq> set fs
         \<and> (\<forall>n\<in>set fs. n \<notin> set fs' \<longrightarrow> \<not> nisDir n \<and> HasSuffix (npath n) ''.deb'')
         \<and> set (Deleted res') \<subseteq> set (Deleted res) \<union> {p. fileArchive fs0 p}
         \<and> (DryRun opts \<longrightarrow> fs' = fs)"
  using assms
proof (induction g arbitrary: res fs)
  case Nil
  then show ?case by simp
next
  case (Cons e g)
  obtain key pkgs where e: "e = (key, pkgs)" by (cases e)
  obtain err1 res1 fs1 where
    g1: "pruneGroup opts 0 (sortPackageFiles pkgs) res fs = (err1, res1, fs1)"
    by (cases "pruneGroup opts 0 (sortPackageFiles pkgs) res fs")
  have arch: "\<forall>pf\<in>set (sortPackageFiles pkgs). fileArchive fs0 (Path pf)"
    using Cons.prems(1) e by (simp add: archiveGroups_def sortPackageFiles_set)
  note f1 = pruneGroup_frame [OF arch Cons.prems(2,3) g1]
  have del1: "set (Deleted res1) \<subseteq> set (Deleted res) \<union> {p. fileArchive fs0 p}"
    using f1 arch by auto
  show ?case
  proof (cases err1)
    case (Some x)
    then have "fs' = fs1" "res' = res1"
      using Cons.prems(4) e g1 by simp_all
    then show ?thesis using f1 del1 by blast
  next
    case None
    then have run: "pruneGroups opts g res1 fs1 = (err, res', fs')"
      using Cons.prems(4) e g1 by simp
    have "archiveGroups fs0 g"
      using Cons.prems(1) by (simp add: archiveGroups_def)
    moreover have "set fs1 \<subseteq> set fs0"
      using f1 Cons.prems(3) by blast
    ultimately have ih: "set fs' \<subseteq> set fs1
         \<and> (\<forall>n\<in>set fs1. n \<notin> set fs' \<longrightarrow> \<not> nisDir n \<and> HasSuffix (npath n) ''.deb'')
         \<and> set (Deleted res') \<subseteq> set (Deleted res1) \<union> {p. fileArchive fs0 p}
         \<and> (DryRun opts \<longrightarrow> fs' = fs1)"
      using Cons.IH [OF _ Cons.prems(2) _ run] by blast
    have "set fs' \<subseteq> set fs"
      using ih f1 by blast
    moreover have "\<forall>n\<in>set fs. n \<notin> set fs' \<longrightarrow> \<not> nisDir n \<and> HasSuffix (npath n) ''.deb''"
      using ih f1 by blast
    moreover have "set (Deleted res') \<subseteq> set (Deleted res) \<union> {p. fileArchive fs0 p}"
      using ih del1 by blast
    moreover have "DryRun opts \<longrightarrow> fs' = fs"
      using ih f1 by simp
    ultimately show ?thesis by blast
  qed
qed

lemma cleanWalk_frame:
  assumes "distinct (map npath fs0)" "set ns \<subseteq> set fs0" "set fs \<subseteq> set fs0"
    "cleanWalk root ns fs = (err, fs')"
  shows "set fs' \<subseteq> set fs
         \<and> (\<forall>n\<in>set fs. n \<notin> set fs'
               \<longrightarrow> nisDir n \<and> npath n \<noteq> root \<and> (\<forall>m\<in>set fs'. ndir m \<noteq> npath n))"
  using assms
proof (induction ns arbitrary: fs)
  case Nil
  then show ?case by simp
next
  case (Cons d ns)
  have ns: "set ns \<subseteq> set fs0"
    using Cons.prems(2) by simp
  let ?rm = "nwalkErr d = None \<and> nisDir d \<and> filter (\<lambda>m. ndir m = npath d) fs = []
             \<and> npath d \<noteq> root"
  show ?case
  proof (cases ?rm)
    case False
    then have "fs' = fs \<or> cleanWalk root ns fs = (err, fs')"
      using Cons.prems(4) by (cases "nwalkErr d") (auto split: if_splits)
    then show ?thesis
      using Cons.IH [OF Cons.prems(1) ns Cons.prems(3)] by auto
  next
    case True
    show ?thesis
    proof (cases rule: osRemove_cases [of fs "npath d"])
      case (1 e)
      then have "fs' = fs"
        using Cons.prems(4) True by simp
      then show ?thesis by simp
    next
      case 2
      let ?fs1 = "filter (\<lambda>m. npath m \<noteq> npath d) fs"
      have run: "cleanWalk root ns ?fs1 = (err, fs')"
        using Cons.prems(4) True 2 by simp
      have sub: "set ?fs1 \<subseteq> set fs0"
        using Cons.prems(3) by auto
      note ih = Cons.IH [OF Cons.prems(1) ns sub run]
      have empty: "\<forall>m\<in>set fs. ndir m \<noteq> npath d"
        using True by (simp add: filter_empty_conv)
      have d: "d \<in> set fs0"
        using Cons.prems(2) by simp
      have gone: "nisDir n \<and> npath n \<noteq> root \<and> (\<forall>m\<in>set fs'. ndir m \<noteq> npath n)"
        if "n \<in> set fs" "n \<notin> set ?fs1" for n
      proof -
        from that have "npath n = npath d" by simp
        moreover have "n \<in> set fs0" using that(1) Cons.prems(3) by blast
        ultimately have "n = d"
          using same_path_same_node [OF Cons.prems(1), of n d] d by simp
        moreover have "set fs' \<subseteq> set fs"
          using ih by auto
        ultimately show ?thesis
          using True empty by blast
      qed
      have "set fs' \<subseteq> set fs"
        using ih by auto
      moreover have "\<forall>n\<in>set fs. n \<notin> set fs'
               \<longrightarrow> nisDir n \<and> npath n \<noteq> root \<and> (\<forall>m\<in>set fs'. ndir m \<noteq> npath n)"
        using ih gone by blast
      ultimately show ?thesis by blast
    qed
  qed
qed

lemma pruneFinish_frame:
  assumes arch: "archiveGroups fs g" and paths: "distinct (map npath fs)"
    and run: "pruneFinish opts poolDir g fs = (out, fs')"
  shows "(\<forall>res. out = Inr res \<longrightarrow> (\<forall>p\<in>set (Deleted res). HasSuffix p ''.deb''))
         \<and> set fs' \<subseteq> set fs
         \<and> (\<forall>n\<in>set fs. \<not> nisDir n \<and> n \<notin> set fs' \<longrightarrow> HasSuffix (npath n) ''.deb'')
         \<and> (\<forall>n\<in>set fs. nisDir n \<and> n \<notin> set fs'
               \<longrightarrow> npath n \<noteq> poolDir \<and> (\<forall>m\<in>set fs'. ndir m \<noteq> npath n))
         \<and> (DryRun opts \<longrightarrow> fs' = fs)"
proof -
  obtain e1 res1 fs1 where
    g1: "pruneGroups opts g \<lparr>Deleted = [], Kept = []\<rparr> fs = (e1, res1, fs1)"
    by (cases "pruneGroups opts g \<lparr>Deleted = [], Kept = []\<rparr> fs")
  have f1: "set fs1 \<subseteq> set fs"
    "\<forall>n\<in>set fs. n \<notin> set fs1 \<longrightarrow> \<not> nisDir n \<and> HasSuffix (npath n) ''.deb''"
    "set (Deleted res1) \<subseteq> {p. fileArchive fs p}"
    "DryRun opts \<longrightarrow> fs1 = fs"
    using pruneGroups_frame [OF arch paths subset_refl g1] by simp_all
  have del: "\<forall>p\<in>set (Deleted res1). HasSuffix p ''.deb''"
    using f1(3) by (auto simp: fileArchive_def)
  show ?thesis
  proof (cases "e1 = None \<and> \<not> DryRun opts")
    case False
    then have "fs' = fs1" "out = Inr res1 \<or> (\<exists>e. out = Inl e)"
      using run g1 by (auto simp: pruneFinish_def split: option.splits)
    then show ?thesis
      using f1 del by blast
  next
    case True
    obtain e2 fs2 where c: "cleanWalk poolDir fs1 fs1 = (e2, fs2)"
      by (cases "cleanWalk poolDir fs1 fs1")
    have f2: "set fs2 \<subseteq> set fs1"
      "\<forall>n\<in>set fs1. n \<notin> set fs2
         \<longrightarrow> nisDir n \<and> npath n \<noteq> poolDir \<and> (\<forall>m\<in>set fs2. ndir m \<noteq> npath n)"
      using cleanWalk_frame [OF paths f1(1) f1(1) c] by simp_all
    have "fs' = fs2" "out = Inr res1 \<or> (\<exists>e. out = Inl e)"
      using run g1 c True by (auto simp: pruneFinish_def cleanEmptyDirs_def split: option.splits)
    then show ?thesis
      using f1 f2 del True by blast
  qed
qed

text \<open>
  Claim C10. Whatever \<open>Prune\<close> returns, on a pool whose paths are distinct and with any
  order of ranging over the map: every path of the \<open>Deleted\<close> list ends in \<open>.deb\<close>; no
  node is created; a regular file that is gone afterwards has a path ending in
  \<open>.deb\<close>, so files with other names stay; a directory that is gone is not the pool
  directory and lists no remaining node; and a dry run leaves the pool as it was.
\<close>

theorem Prune_removes_only_archives:
  assumes run: "Prune mapOrder r opts fs = (out, fs')"
    and order: "\<forall>g. set (mapOrder g) = set g"
    and paths: "distinct (map npath fs)"
  shows "(\<forall>res. out = Inr res \<longrightarrow> (\<forall>p\<in>set (Deleted res). HasSuffix p ''.deb''))
         \<and> set fs' \<subseteq> set fs
         \<and> (\<forall>n\<in>set fs. \<not> nisDir n \<and> n \<notin> set fs' \<longrightarrow> HasSuffix (npath n) ''.deb'')
         \<and> (\<forall>n\<in>set fs. nisDir n \<and> n \<notin> set fs'
               \<longrightarrow> npath n \<noteq> Join [Root r, ''pool'', ''main'']
                   \<and> (\<forall>m\<in>set fs'. ndir m \<noteq> npath n))
         \<and> (DryRun opts \<longrightarrow> fs' = fs)"
proof -
  let ?opts = "if KeepVersions opts < 1 then opts\<lparr>KeepVersions := 5\<rparr> else opts"
  let ?pool = "Join [Root r, ''pool'', ''main'']"
  let ?g = "fst (pruneWalk fs [])"
  have dry: "DryRun ?opts = DryRun opts"
    by simp
  have "archiveGroups fs ?g"
    by (rule archiveGroups_pruneWalk) (simp_all add: archiveGroups_def)
  then have arch: "archiveGroups fs (mapOrder ?g)"
    using order by (simp add: archiveGroups_def)
  show ?thesis
  proof (cases "\<exists>err. snd (pruneWalk fs []) = Some err \<and> \<not> IsNotExist err")
    case True
    then have "fs' = fs" "\<exists>e. out = Inl e"
      using run by (auto simp: Prune_def Let_def)
    then show ?thesis by auto
  next
    case False
    then have "pruneFinish ?opts ?pool (mapOrder ?g) fs = (out, fs')"
      using run by (auto simp: Prune_def Let_def split: option.splits)
    from pruneFinish_frame [OF arch paths this] show ?thesis
      unfolding dry by blast
  qed
qed

theorem Prune_removes_only_archives_witness:
  "fst (Prune (\<lambda>g. g) \<lparr>Root = ''repo''\<rparr> \<lparr>KeepVersions = 2, DryRun = False\<rparr> scenarioPool)
     = Inr \<lparr>Deleted = [''repo/pool/main/p/pkg/pkg_1.0_amd64.deb''],
            Kept = [''repo/pool/main/p/pkg/pkg_2.0_amd64.deb'',
                    ''repo/pool/main/p/pkg/pkg_1.5_amd64.deb'']\<rparr>
   \<and> HasSuffix ''repo/pool/main/p/pkg/pkg_1.0_amd64.deb'' ''.deb''
   \<and> set (snd (Prune (\<lambda>g. g) \<lparr>Root = ''repo''\<rparr> \<lparr>KeepVersions = 2, DryRun = False\<rparr>
                 scenarioPool)) \<subseteq> set scenarioPool"
proof -
  let ?run = "Prune (\<lambda>g. g) \<lparr>Root = ''repo''\<rparr> \<lparr>KeepVersions = 2, DryRun = False\<rparr> scenarioPool"
  have out: "fst ?run
     = Inr \<lparr>Deleted = [''repo/pool/main/p/pkg/pkg_1.0_amd64.deb''],
            Kept = [''repo/pool/main/p/pkg/pkg_2.0_amd64.deb'',
                    ''repo/pool/main/p/pkg/pkg_1.5_amd64.deb'']\<rparr>"
    by code_simp
  have paths: "distinct (map npath scenarioPool)"
    by code_simp
  have run: "?run = (fst ?run, snd ?run)"
    by simp
  have order: "\<forall>g :: groups. set ((\<lambda>g. g) g) = set g"
    by simp
  from Prune_removes_only_archives [OF run order paths] out show ?thesis
    by simp
qed

section \<open>Properties of scanPool\<close>














section \<open>Properties of the grouping in Prune\<close>

text \<open>
  Claim C6 has \<open>Prune\<close> group the archives by name and architecture, as the comment
  in \<open>Prune\<close> says. The key of the map is the string \<open>Name + "_" + Architecture\<close>, and
  neither part is checked for underscores: the package \<open>tool\<close> for the architecture
  \<open>linux_amd64\<close> and the package \<open>tool_linux\<close> for \<open>amd64\<close> share the key
  \<open>tool_linux_amd64\<close>. With one version to keep, \<open>Prune\<close> ranks the two archives as
  versions of one package and deletes the only archive of \<open>tool\<close>. On the pool of the
  claim's scenario, a single package, the lists are the ones the claim gives, and a
  dry run leaves the archive of version 1.0 in the pool.
\<close>

theorem Prune_key_collision:
  "map fst (fst (pruneWalk collisionPool [])) = [''tool_linux_amd64'']
   \<and> fst (Prune (\<lambda>g. g) \<lparr>Root = ''repo''\<rparr> \<lparr>KeepVersions = 1, DryRun = False\<rparr> collisionPool)
       = Inr \<lparr>Deleted = [''repo/pool/main/t/tool/tool_1.0_linux_amd64.deb''],
              Kept = [''repo/pool/main/t/tool_linux/tool_linux_2.0_amd64.deb'']\<rparr>
   \<and> ''repo/pool/main/t/tool/tool_1.0_linux_amd64.deb''
       \<notin> set (map npath (snd (Prune (\<lambda>g. g) \<lparr>Root = ''repo''\<rparr>
                                   \<lparr>KeepVersions = 1, DryRun = False\<rparr> collisionPool)))
   \<and> fst (Prune (\<lambda>g. g) \<lparr>Root = ''repo''\<rparr> \<lparr>KeepVersions = 2, DryRun = True\<rparr> scenarioPool)
       = Inr \<lparr>Deleted = [''repo/pool/main/p/pkg/pkg_1.0_amd64.deb''],
              Kept = [''repo/pool/main/p/pkg/pkg_2.0_amd64.deb'',
                      ''repo/pool/main/p/pkg/pkg_1.5_amd64.deb'']\<rparr>
   \<and> snd (Prune (\<lambda>g. g) \<lparr>Root = ''repo''\<rparr> \<lparr>KeepVersions = 2, DryRun = True\<rparr> scenarioPool)
       = scenarioPool"
proof -
  have "map fst (fst (pruneWalk collisionPool [])) = [''tool_linux_amd64'']"
    by code_simp
  moreover have "fst (Prune (\<lambda>g. g) \<lparr>Root = ''repo''\<rparr> \<lparr>KeepVersions = 1, DryRun = False\<rparr>
                       collisionPool)
       = Inr \<lparr>Deleted = [''repo/pool/main/t/tool/tool_1.0_linux_amd64.deb''],
              Kept = [''repo/pool/main/t/tool_linux/tool_linux_2.0_amd64.deb'']\<rparr>"
    by code_simp
  moreover have "''repo/pool/main/t/tool/tool_1.0_linux_amd64.deb''
       \<notin> set (map npath (snd (Prune (\<lambda>g. g) \<lparr>Root = ''repo''\<rparr>
                                   \<lparr>KeepVersions = 1, DryRun = False\<rparr> collisionPool)))"
    by code_simp
  moreover have "fst (Prune (\<lambda>g. g) \<lparr>Root = ''repo''\<rparr> \<lparr>KeepVersions = 2, DryRun = True\<rparr>
                       scenarioPool)
       = Inr \<lparr>Deleted = [''repo/pool/main/p/pkg/pkg_1.0_amd64.deb''],
              Kept = [''repo/pool/main/p/pkg/pkg_2.0_amd64.deb'',
                      ''repo/pool/main/p/pkg/pkg_1.5_amd64.deb'']\<rparr>"
    by code_simp
  moreover have "snd (Prune (\<lambda>g. g) \<lparr>Root = ''repo''\<rparr> \<lparr>KeepVersions = 2, DryRun = True\<rparr>
                       scenarioPool) = scenarioPool"
    by code_simp
  ultimately show ?thesis by blast
qed

end
